theory Spec2Isabelle
  imports Complex_Main
begin

section \<open>Shared data of the search\<close>

text \<open>
  The model follows \<^verbatim>\<open>src/cpp/search/search.cpp\<close>. C++ \<^verbatim>\<open>double\<close> and
  \<^verbatim>\<open>float\<close> values are idealised as real numbers: rounding, infinities and NaN are
  outside the model. \<^verbatim>\<open>Player\<close> carries the three names the file uses.
\<close>

datatype player = C_EMPTY | P_BLACK | P_WHITE

type_synonym loc = int

record searchParams =
  cpuctExploration_param :: real
  cpuctExplorationLog :: real
  cpuctExplorationBase :: real
  numThreads :: int
  conservativePass :: bool
  treeReuseCarryOverTimeFactor :: real
  graphSearchCatchUpLeakProb :: real
  rootDirichletNoiseTotalConcentration :: real
  rootDirichletNoiseWeight :: real

section \<open>Selection score (PUCT)\<close>

text \<open>\<^verbatim>\<open>static double cpuctExploration(double totalChildWeight, const SearchParams&)\<close>.\<close>

definition cpuctExploration :: "real \<Rightarrow> searchParams \<Rightarrow> real" where
  "cpuctExploration totalChildWeight sp =
     cpuctExploration_param sp +
     cpuctExplorationLog sp *
       ln ((totalChildWeight + cpuctExplorationBase sp) / cpuctExplorationBase sp)"

definition TOTALCHILDWEIGHT_PUCT_OFFSET :: real where
  "TOTALCHILDWEIGHT_PUCT_OFFSET = 0.01"

text \<open>
  \<^verbatim>\<open>Search::getExploreSelectionValue\<close>. The constant
  \<^verbatim>\<open>POLICY_ILLEGAL_SELECTION_VALUE\<close> is declared in a header that is not part of the
  sources at hand, so it is the first parameter.
\<close>

definition getExploreSelectionValue ::
  "real \<Rightarrow> searchParams \<Rightarrow> real \<Rightarrow> real \<Rightarrow> real \<Rightarrow> real \<Rightarrow> real \<Rightarrow> player \<Rightarrow> real" where
  "getExploreSelectionValue POLICY_ILLEGAL_SELECTION_VALUE sp
       nnPolicyProb totalChildWeight childWeight childUtility parentUtilityStdevFactor pla =
     (if nnPolicyProb < 0 then POLICY_ILLEGAL_SELECTION_VALUE
      else
        let exploreComponent =
              cpuctExploration totalChildWeight sp
              * parentUtilityStdevFactor
              * nnPolicyProb
              * sqrt (totalChildWeight + TOTALCHILDWEIGHT_PUCT_OFFSET)
              / (1 + childWeight);
            valueComponent = (if pla = P_WHITE then childUtility else - childUtility)
        in exploreComponent + valueComponent)"

text \<open>The score as the specification writes it (section 4.4), for comparison.\<close>

definition cPuct_spec :: "searchParams \<Rightarrow> real \<Rightarrow> real" where
  "cPuct_spec sp W =
     cpuctExploration_param sp
       + cpuctExplorationLog sp * ln ((W + cpuctExplorationBase sp) / cpuctExplorationBase sp)"

definition score_spec ::
  "searchParams \<Rightarrow> real \<Rightarrow> real \<Rightarrow> real \<Rightarrow> real \<Rightarrow> real \<Rightarrow> player \<Rightarrow> real" where
  "score_spec sp P W cw Q stdevFactor pla =
     (if pla = P_WHITE then Q else - Q)
       + cPuct_spec sp W * stdevFactor * P * sqrt (W + 0.01) / (1 + cw)"

section \<open>Search nodes and their child arrays\<close>

text \<open>
  Failures of the C++ code are values: a failed \<^verbatim>\<open>assert\<close>, a null or dangling pointer
  that is dereferenced, an index outside an array, a thrown \<^verbatim>\<open>StringError\<close>. A quotient
  of doubles with the divisor 0, which is no real number, is the value \<open>NotANumber\<close>.
\<close>

datatype error = AssertFailed | NullDeref | OutOfBounds | StringError | NotANumber

type_synonym addr = nat

text \<open>
  Constants declared in headers that are not among the sources at hand: the three capacities
  of the child arrays and \<^verbatim>\<open>Board::NULL_LOC\<close>.
\<close>

record constants =
  CHILDREN0SIZE :: nat
  CHILDREN1SIZE :: nat
  CHILDREN2SIZE :: nat
  NULL_LOC :: loc

text \<open>
  Modelled from the spec: the seven values of \<^verbatim>\<open>SearchNode::state\<close> are declared in
  \<^verbatim>\<open>search.h\<close>, which is missing; the specification orders them
  \<^verbatim>\<open>UNEVALUATED < EVALUATING < EXPANDED0 < GROWING1 < EXPANDED1 < GROWING2 < EXPANDED2\<close>.
  The code keeps them in an \<^verbatim>\<open>int\<close> and compares them with \<^verbatim>\<open><\<close> and \<^verbatim>\<open>>=\<close>.
\<close>

definition STATE_UNEVALUATED :: int where "STATE_UNEVALUATED = 0"
definition STATE_EVALUATING :: int where "STATE_EVALUATING = 1"
definition STATE_EXPANDED0 :: int where "STATE_EXPANDED0 = 2"
definition STATE_GROWING1 :: int where "STATE_GROWING1 = 3"
definition STATE_EXPANDED1 :: int where "STATE_EXPANDED1 = 4"
definition STATE_GROWING2 :: int where "STATE_GROWING2 = 5"
definition STATE_EXPANDED2 :: int where "STATE_EXPANDED2 = 6"

lemmas STATE_defs =
  STATE_UNEVALUATED_def STATE_EVALUATING_def STATE_EXPANDED0_def STATE_GROWING1_def
  STATE_EXPANDED1_def STATE_GROWING2_def STATE_EXPANDED2_def

text \<open>\<^verbatim>\<open>SearchChildPointer\<close>: the atomic triple of child pointer, edge visits and move.\<close>

record SearchChildPointer =
  data :: "addr option"
  edgeVisits :: int
  moveLoc :: loc

definition newSearchChildPointer :: "constants \<Rightarrow> SearchChildPointer" where
  "newSearchChildPointer K = \<lparr>data = None, edgeVisits = 0, moveLoc = NULL_LOC K\<rparr>"

record NodeStats =
  visits :: int
  winLossValueAvg :: real
  noResultValueAvg :: real
  scoreMeanAvg :: real
  scoreMeanSqAvg :: real
  leadAvg :: real
  utilityAvg :: real
  utilitySqAvg :: real
  weightSum :: real
  weightSqSum :: real

text \<open>
  \<^verbatim>\<open>SearchNode\<close>. A child array that is not allocated is \<open>None\<close>; the evaluator output
  is a handle, \<open>None\<close> when the pointer is null.
\<close>

record SearchNode =
  nextPla :: player
  forceNonTerminal :: bool
  patternBonusHash :: nat
  mutexIdx :: nat
  state :: int
  nnOutput :: "nat option"
  nodeAge :: nat
  children0 :: "SearchChildPointer list option"
  children1 :: "SearchChildPointer list option"
  children2 :: "SearchChildPointer list option"
  stats :: NodeStats
  virtualLosses :: int
  lastSubtreeValueBiasDeltaSum :: real
  lastSubtreeValueBiasWeight :: real
  subtreeValueBiasTableEntry :: "nat option"
  dirtyCounter :: int

text \<open>\<^verbatim>\<open>SearchNode::getChildrenCapacity\<close> and \<^verbatim>\<open>SearchNode::getChildren\<close>.\<close>

definition getChildrenCapacity :: "constants \<Rightarrow> int \<Rightarrow> nat" where
  "getChildrenCapacity K stateValue =
     (if stateValue \<ge> STATE_EXPANDED2 then CHILDREN2SIZE K
      else if stateValue \<ge> STATE_EXPANDED1 then CHILDREN1SIZE K
      else if stateValue \<ge> STATE_EXPANDED0 then CHILDREN0SIZE K
      else 0)"

definition getChildren ::
  "constants \<Rightarrow> SearchNode \<Rightarrow> int \<Rightarrow> SearchChildPointer list option \<times> nat" where
  "getChildren K node stateValue =
     (if stateValue \<ge> STATE_EXPANDED2 then (children2 node, CHILDREN2SIZE K)
      else if stateValue \<ge> STATE_EXPANDED1 then (children1 node, CHILDREN1SIZE K)
      else if stateValue \<ge> STATE_EXPANDED0 then (children0 node, CHILDREN0SIZE K)
      else (None, 0))"

text \<open>
  \<^verbatim>\<open>state.compare_exchange_strong(expected, desired)\<close>: on failure the value found is
  loaded into \<^verbatim>\<open>expected\<close>.
\<close>

definition state_compare_exchange_strong ::
  "SearchNode \<Rightarrow> int \<Rightarrow> int \<Rightarrow> bool \<times> int \<times> SearchNode" where
  "state_compare_exchange_strong node expected desired =
     (if state node = expected then (True, expected, node\<lparr>state := desired\<rparr>)
      else (False, state node, node))"

text \<open>
  The copy loop of \<^verbatim>\<open>tryExpandingChildrenCapacityAssumeFull\<close>, over the indices
  \<^verbatim>\<open>0 .. size-1\<close> of the old array: the child pointer (asserted non-null), the edge visits
  and the move of slot \<open>i\<close> go to slot \<open>i\<close> of the new array.
\<close>

fun copySlots ::
  "nat list \<Rightarrow> SearchChildPointer list \<Rightarrow> SearchChildPointer list
     \<Rightarrow> error + SearchChildPointer list" where
  "copySlots [] oldChildren children = Inr children"
| "copySlots (i # rest) oldChildren children =
     (if i \<ge> length oldChildren then Inl OutOfBounds
      else case data (oldChildren ! i) of
        None \<Rightarrow> Inl AssertFailed
      | Some child \<Rightarrow>
          if i \<ge> length children then Inl OutOfBounds
          else copySlots rest oldChildren
                 (children[i := (children ! i)
                    \<lparr>data := Some child,
                     edgeVisits := edgeVisits (oldChildren ! i),
                     moveLoc := moveLoc (oldChildren ! i)\<rparr>]))"

text \<open>
  Allocation of the larger array followed by the copy loop. The old array pointer is read
  from the node; a null old array is dereferenced by the first iteration.
\<close>

definition growInto ::
  "constants \<Rightarrow> nat \<Rightarrow> nat \<Rightarrow> SearchChildPointer list option
     \<Rightarrow> error + SearchChildPointer list" where
  "growInto K oldSize newSize oldChildren =
     (let children = replicate newSize (newSearchChildPointer K) in
      if oldSize = 0 then Inr children
      else case oldChildren of
        None \<Rightarrow> Inl NullDeref
      | Some old \<Rightarrow> copySlots [0..<oldSize] old children)"

text \<open>
  \<^verbatim>\<open>SearchNode::tryExpandingChildrenCapacityAssumeFull\<close>, first part: the early return
  while another worker is growing, the assertion, and the compare-exchange on \<^verbatim>\<open>state\<close>.
  The result is the flag "the exchange succeeded", the updated \<^verbatim>\<open>stateValue\<close> and the node.
  An observed state of \<^verbatim>\<open>EXPANDED2\<close> or more reaches \<^verbatim>\<open>ASSERT_UNREACHABLE\<close>.
\<close>

definition tryExpanding_begin ::
  "SearchNode \<Rightarrow> int \<Rightarrow> error + (bool \<times> int \<times> SearchNode)" where
  "tryExpanding_begin node stateValue =
     (if stateValue < STATE_EXPANDED1 then
        if stateValue = STATE_GROWING1 then Inr (False, stateValue, node)
        else if stateValue \<noteq> STATE_EXPANDED0 then Inl AssertFailed
        else case state_compare_exchange_strong node stateValue STATE_GROWING1 of
          (suc, found, node') \<Rightarrow>
            if \<not> suc then Inr (False, found, node') else Inr (True, STATE_GROWING1, node')
      else if stateValue < STATE_EXPANDED2 then
        if stateValue = STATE_GROWING2 then Inr (False, stateValue, node)
        else if stateValue \<noteq> STATE_EXPANDED1 then Inl AssertFailed
        else case state_compare_exchange_strong node stateValue STATE_GROWING2 of
          (suc, found, node') \<Rightarrow>
            if \<not> suc then Inr (False, found, node') else Inr (True, STATE_GROWING2, node')
      else Inl AssertFailed)"

text \<open>
  Second part, run by the worker whose exchange succeeded: allocate and fill the larger
  array, assert that the node has none yet, set the node's array pointer, then store the
  new state. The result lists the node after each of the two writes, in program order:
  first with the array in place and the state still \<^verbatim>\<open>GROWING\<close>, then with the state
  stored.
\<close>

definition tryExpanding_finish ::
  "constants \<Rightarrow> SearchNode \<Rightarrow> int \<Rightarrow> error + (int \<times> SearchNode list)" where
  "tryExpanding_finish K node stateValue =
     (if stateValue = STATE_GROWING1 then
        case growInto K (CHILDREN0SIZE K) (CHILDREN1SIZE K) (children0 node) of
          Inl e \<Rightarrow> Inl e
        | Inr children \<Rightarrow>
            if children1 node \<noteq> None then Inl AssertFailed
            else let node1 = node\<lparr>children1 := Some children\<rparr>;
                     node2 = node1\<lparr>state := STATE_EXPANDED1\<rparr>
                 in Inr (STATE_EXPANDED1, [node1, node2])
      else
        case growInto K (CHILDREN1SIZE K) (CHILDREN2SIZE K) (children1 node) of
          Inl e \<Rightarrow> Inl e
        | Inr children \<Rightarrow>
            if children2 node \<noteq> None then Inl AssertFailed
            else let node1 = node\<lparr>children2 := Some children\<rparr>;
                     node2 = node1\<lparr>state := STATE_EXPANDED2\<rparr>
                 in Inr (STATE_EXPANDED2, [node1, node2]))"

text \<open>
  The whole function, run without interference between its two parts. It returns the
  boolean result, the updated \<^verbatim>\<open>stateValue\<close>, the final node, and the successive
  contents of the node after each write (empty when nothing was written).
\<close>

definition tryExpandingChildrenCapacityAssumeFull ::
  "constants \<Rightarrow> SearchNode \<Rightarrow> int
     \<Rightarrow> error + (bool \<times> int \<times> SearchNode \<times> SearchNode list)" where
  "tryExpandingChildrenCapacityAssumeFull K node stateValue =
     (case tryExpanding_begin node stateValue of
        Inl e \<Rightarrow> Inl e
      | Inr (suc, stateValue1, node1) \<Rightarrow>
          if \<not> suc then Inr (False, stateValue1, node1, [])
          else (case tryExpanding_finish K node1 stateValue1 of
                  Inl e \<Rightarrow> Inl e
                | Inr (stateValue2, trace) \<Rightarrow>
                    Inr (True, stateValue2, last trace, node1 # trace)))"

text \<open>\<^verbatim>\<open>SearchNode::maybeExpandChildrenCapacityForNewChild\<close>.\<close>

definition maybeExpandChildrenCapacityForNewChild ::
  "constants \<Rightarrow> SearchNode \<Rightarrow> int \<Rightarrow> nat
     \<Rightarrow> error + (bool \<times> int \<times> SearchNode \<times> SearchNode list)" where
  "maybeExpandChildrenCapacityForNewChild K node stateValue numChildrenFullPlusOne =
     (let capacity = getChildrenCapacity K stateValue in
      if capacity < numChildrenFullPlusOne then
        if capacity + 1 \<noteq> numChildrenFullPlusOne then Inl AssertFailed
        else tryExpandingChildrenCapacityAssumeFull K node stateValue
      else Inr (True, stateValue, node, []))"

text \<open>The precondition of the growth: every slot of the array is occupied.\<close>

definition allSlotsFull :: "nat \<Rightarrow> SearchChildPointer list option \<Rightarrow> bool" where
  "allSlotsFull n arr =
     (case arr of None \<Rightarrow> False
      | Some cs \<Rightarrow> length cs = n \<and> list_all (\<lambda>c. data c \<noteq> None) cs)"

text \<open>A small instance for concrete runs: capacities 2, 3 and 5, and a node whose first array is full.\<close>

definition example_constants :: constants where
  "example_constants = \<lparr>CHILDREN0SIZE = 2, CHILDREN1SIZE = 3, CHILDREN2SIZE = 5, NULL_LOC = 0\<rparr>"

definition example_stats :: NodeStats where
  "example_stats =
     \<lparr>visits = 7, winLossValueAvg = 0, noResultValueAvg = 0, scoreMeanAvg = 0,
      scoreMeanSqAvg = 0, leadAvg = 0, utilityAvg = 0, utilitySqAvg = 0, weightSum = 7,
      weightSqSum = 7\<rparr>"

definition example_node :: SearchNode where
  "example_node =
     \<lparr>nextPla = P_BLACK, forceNonTerminal = False, patternBonusHash = 0, mutexIdx = 0,
      state = 2, nnOutput = Some 1, nodeAge = 0,
      children0 = Some [\<lparr>data = Some 5, edgeVisits = 3, moveLoc = 7\<rparr>,
                        \<lparr>data = Some 6, edgeVisits = 4, moveLoc = 8\<rparr>],
      children1 = None, children2 = None, stats = example_stats, virtualLosses = 0,
      lastSubtreeValueBiasDeltaSum = 0, lastSubtreeValueBiasWeight = 0,
      subtreeValueBiasTableEntry = None, dirtyCounter = 0\<rparr>"

section \<open>Workers interleaving on one node\<close>

text \<open>
  The writes to \<^verbatim>\<open>state\<close> are in \<^verbatim>\<open>Search::playoutDescend\<close> (the compare-exchange
  to \<^verbatim>\<open>EVALUATING\<close> and the store of \<^verbatim>\<open>EXPANDED0\<close>) and in
  \<^verbatim>\<open>tryExpandingChildrenCapacityAssumeFull\<close>. Each worker that is inside
  \<^verbatim>\<open>playoutDescend\<close> on the node is at one of four places: it has not read the state,
  it holds a loaded \<^verbatim>\<open>nodeState\<close>, it won the exchange to \<^verbatim>\<open>EVALUATING\<close>, or it won the
  exchange to a \<^verbatim>\<open>GROWING\<close> state. A step is one atomic action of one worker; a step
  that is not enabled, or that fails an assertion, has no successor. Every step reports the
  write it made to \<^verbatim>\<open>state\<close>, as the pair of the value replaced and the value written.
  The atomic \<^verbatim>\<open>state\<close> has a single modification order, so interleaving is the model of
  its concurrent use.
\<close>

text \<open>\<^verbatim>\<open>SearchNode::initializeChildren\<close>.\<close>

definition initializeChildren :: "constants \<Rightarrow> SearchNode \<Rightarrow> error + SearchNode" where
  "initializeChildren K node =
     (if children0 node \<noteq> None then Inl AssertFailed
      else Inr (node\<lparr>children0 :=
                  Some (replicate (CHILDREN0SIZE K) (newSearchChildPointer K))\<rparr>))"

text \<open>Writing back the array that \<open>getChildren\<close> selects for an observed state.\<close>

definition setChildren :: "SearchNode \<Rightarrow> int \<Rightarrow> SearchChildPointer list \<Rightarrow> SearchNode" where
  "setChildren node stateValue arr =
     (if stateValue \<ge> STATE_EXPANDED2 then node\<lparr>children2 := Some arr\<rparr>
      else if stateValue \<ge> STATE_EXPANDED1 then node\<lparr>children1 := Some arr\<rparr>
      else node\<lparr>children0 := Some arr\<rparr>)"

datatype pc = Idle | Loaded int | Evaluating_won | Growing_won int

record config =
  shared :: SearchNode
  pcs :: "nat \<Rightarrow> pc"

datatype action =
    Load
  | Cas_evaluating
  | Store_expanded0
  | Install_child nat addr loc
  | Grow_begin
  | Grow_finish
  | Leave

definition initial :: "SearchNode \<Rightarrow> config" where
  "initial node = \<lparr>shared = node, pcs = (\<lambda>t. Idle)\<rparr>"

fun step :: "constants \<Rightarrow> config \<Rightarrow> nat \<times> action \<Rightarrow> (config \<times> (int \<times> int) option) option" where
  "step K c (t, Load) =
     (case pcs c t of
        Idle \<Rightarrow> Some (c\<lparr>pcs := (pcs c)(t := Loaded (state (shared c)))\<rparr>, None)
      | Loaded v \<Rightarrow> Some (c\<lparr>pcs := (pcs c)(t := Loaded (state (shared c)))\<rparr>, None)
      | _ \<Rightarrow> None)"
| "step K c (t, Cas_evaluating) =
     (case pcs c t of
        Loaded v \<Rightarrow>
          if v \<noteq> STATE_UNEVALUATED then None
          else (case state_compare_exchange_strong (shared c) v STATE_EVALUATING of
                  (suc, found, node') \<Rightarrow>
                    if suc
                    then Some (c\<lparr>shared := node', pcs := (pcs c)(t := Evaluating_won)\<rparr>,
                               Some (state (shared c), STATE_EVALUATING))
                    else Some (c\<lparr>shared := node', pcs := (pcs c)(t := Idle)\<rparr>, None))
      | _ \<Rightarrow> None)"
| "step K c (t, Store_expanded0) =
     (case pcs c t of
        Evaluating_won \<Rightarrow>
          (case initializeChildren K (shared c) of
             Inl e \<Rightarrow> None
           | Inr node' \<Rightarrow>
               Some (c\<lparr>shared := node'\<lparr>state := STATE_EXPANDED0\<rparr>, pcs := (pcs c)(t := Idle)\<rparr>,
                     Some (state node', STATE_EXPANDED0)))
      | _ \<Rightarrow> None)"
| "step K c (t, Install_child idx child mv) =
     (case pcs c t of
        Loaded v \<Rightarrow>
          if v < STATE_EXPANDED0 then None
          else (case fst (getChildren K (shared c) v) of
                  None \<Rightarrow> None
                | Some arr \<Rightarrow>
                    if idx \<ge> length arr then None
                    else if data (arr ! idx) \<noteq> None
                    then Some (c\<lparr>pcs := (pcs c)(t := Idle)\<rparr>, None)
                    else Some (c\<lparr>shared := setChildren (shared c) v
                                   (arr[idx := (arr ! idx)\<lparr>moveLoc := mv, data := Some child\<rparr>])\<rparr>,
                               None))
      | _ \<Rightarrow> None)"
| "step K c (t, Grow_begin) =
     (case pcs c t of
        Loaded v \<Rightarrow>
          if \<not> allSlotsFull (snd (getChildren K (shared c) v)) (fst (getChildren K (shared c) v))
          then None
          else (case tryExpanding_begin (shared c) v of
                  Inl e \<Rightarrow> None
                | Inr (suc, sv, node') \<Rightarrow>
                    if suc
                    then Some (c\<lparr>shared := node', pcs := (pcs c)(t := Growing_won sv)\<rparr>,
                               Some (state (shared c), state node'))
                    else Some (c\<lparr>shared := node', pcs := (pcs c)(t := Loaded sv)\<rparr>, None))
      | _ \<Rightarrow> None)"
| "step K c (t, Grow_finish) =
     (case pcs c t of
        Growing_won g \<Rightarrow>
          (case tryExpanding_finish K (shared c) g of
             Inl e \<Rightarrow> None
           | Inr (sv, trace) \<Rightarrow>
               Some (c\<lparr>shared := last trace, pcs := (pcs c)(t := Loaded sv)\<rparr>,
                     Some (state (shared c), sv)))
      | _ \<Rightarrow> None)"
| "step K c (t, Leave) =
     (case pcs c t of
        Loaded v \<Rightarrow> Some (c\<lparr>pcs := (pcs c)(t := Idle)\<rparr>, None)
      | _ \<Rightarrow> None)"

fun run :: "constants \<Rightarrow> config \<Rightarrow> (nat \<times> action) list \<Rightarrow> config option" where
  "run K c [] = Some c"
| "run K c (a # rest) =
     (case step K c a of None \<Rightarrow> None | Some (c', w) \<Rightarrow> run K c' rest)"

text \<open>
  What a step did to \<open>state\<close>: either it left it alone, or it replaced the value \<open>old\<close>
  by a strictly greater \<open>new\<close>.
\<close>

definition advances :: "config \<Rightarrow> config \<Rightarrow> (int \<times> int) option \<Rightarrow> bool" where
  "advances c c' w =
     (case w of
        None \<Rightarrow> state (shared c') = state (shared c)
      | Some (old, new) \<Rightarrow> old = state (shared c) \<and> new = state (shared c') \<and> old < new)"

text \<open>A node as the constructor leaves it, and a schedule of two workers on it.\<close>

definition fresh_node :: SearchNode where
  "fresh_node =
     \<lparr>nextPla = P_BLACK, forceNonTerminal = False, patternBonusHash = 0, mutexIdx = 0,
      state = STATE_UNEVALUATED, nnOutput = None, nodeAge = 0,
      children0 = None, children1 = None, children2 = None,
      stats = \<lparr>visits = 0, winLossValueAvg = 0, noResultValueAvg = 0, scoreMeanAvg = 0,
        scoreMeanSqAvg = 0, leadAvg = 0, utilityAvg = 0, utilitySqAvg = 0, weightSum = 0,
        weightSqSum = 0\<rparr>,
      virtualLosses = 0,
      lastSubtreeValueBiasDeltaSum = 0, lastSubtreeValueBiasWeight = 0,
      subtreeValueBiasTableEntry = None, dirtyCounter = 0\<rparr>"

definition example_schedule :: "(nat \<times> action) list" where
  "example_schedule =
     [(0, Load), (1, Load), (0, Cas_evaluating), (1, Cas_evaluating), (0, Store_expanded0),
      (0, Load), (1, Load), (0, Install_child 0 5 7), (1, Install_child 1 6 8),
      (1, Grow_begin)]"

fun won :: "pc \<Rightarrow> bool" where
  "won Evaluating_won = True"
| "won (Growing_won g) = True"
| "won _ = False"

definition holds :: "int \<Rightarrow> (nat \<Rightarrow> pc) \<Rightarrow> bool" where
  "holds st ps \<longleftrightarrow>
     (\<forall>t. ps t = Evaluating_won \<longrightarrow> st = STATE_EVALUATING) \<and>
     (\<forall>t g. ps t = Growing_won g \<longrightarrow> st = g \<and> (g = STATE_GROWING1 \<or> g = STATE_GROWING2)) \<and>
     (\<forall>t t'. won (ps t) \<longrightarrow> won (ps t') \<longrightarrow> t = t')"

definition holds_state :: "config \<Rightarrow> bool" where
  "holds_state c \<longleftrightarrow> holds (state (shared c)) (pcs c)"

section \<open>Catching up edge visits\<close>

text \<open>
  The result of an operation that loops on other workers' interference or recurses over
  the node graph: it returns, it fails, or the run given to the model ends before it
  returns.
\<close>

datatype 'a outcome = Returns 'a | Fails error | OutOfFuel

text \<open>
  The loop \<^verbatim>\<open>do { if(edgeVisits >= childVisits) return false; }
  while(!compexweakEdgeVisits(edgeVisits, edgeVisits + numToAdd))\<close> with \<^verbatim>\<open>numToAdd = 1\<close>.
  The edge's count is a cell shared with the other workers. Each attempt of the weak
  compare-exchange meets one entry of the environment: the value another worker has stored
  in the cell since the last read (if any), and whether the exchange fails spuriously. A
  failed exchange loads the cell into \<^verbatim>\<open>edgeVisits\<close>. The result is the return value, the
  cell when the loop ends, the entries of the environment not yet met, and the exchange
  that succeeded as the pair of the value replaced and the value written.
\<close>

fun compexweakLoop ::
  "int \<Rightarrow> (int option \<times> bool) list \<Rightarrow> int \<Rightarrow> int
     \<Rightarrow> (bool \<times> int \<times> (int option \<times> bool) list \<times> (int \<times> int) option) outcome" where
  "compexweakLoop childVisits env cell expected =
     (if expected \<ge> childVisits then Returns (False, cell, env, None)
      else case env of
        [] \<Rightarrow> OutOfFuel
      | (interference, spurious) # env' \<Rightarrow>
          let cell1 = (case interference of None \<Rightarrow> cell | Some v \<Rightarrow> v) in
          if cell1 = expected \<and> \<not> spurious
          then Returns (True, expected + 1, env', Some (cell1, expected + 1))
          else compexweakLoop childVisits env' cell1 cell1)"

text \<open>
  \<^verbatim>\<open>Search::maybeCatchUpEdgeVisits\<close>. The random generator of the worker is a state
  \<open>rand\<close> with the operation \<open>nextBool\<close>, called only when the two conditions before it
  hold. The child's visits and the edge's visits are loaded once before the loop. The
  result is the return value, the generator, the parent node as it is in memory when the
  call returns (its slot \<open>bestChildIdx\<close> holding the cell), the rest of the environment,
  and the exchange this worker made on the edge's count.
\<close>

definition maybeCatchUpEdgeVisits ::
  "constants \<Rightarrow> searchParams \<Rightarrow> ('g \<Rightarrow> real \<Rightarrow> bool \<times> 'g) \<Rightarrow> (int option \<times> bool) list
     \<Rightarrow> 'g \<Rightarrow> SearchNode \<Rightarrow> SearchNode \<Rightarrow> int \<Rightarrow> nat
     \<Rightarrow> (bool \<times> 'g \<times> SearchNode \<times> (int option \<times> bool) list \<times> (int \<times> int) option) outcome"
  where
  "maybeCatchUpEdgeVisits K sp nextBool env rand node child nodeState bestChildIdx =
     (case fst (getChildren K node nodeState) of
        None \<Rightarrow> Fails NullDeref
      | Some children \<Rightarrow>
          (if bestChildIdx \<ge> length children then Fails OutOfBounds
           else
             (let childVisits = visits (stats child);
                  edgeVisits0 = edgeVisits (children ! bestChildIdx);
                  wantLeak = (graphSearchCatchUpLeakProb sp > 0 \<and> edgeVisits0 < childVisits);
                  draw = nextBool rand (graphSearchCatchUpLeakProb sp)
              in if wantLeak \<and> fst draw then Returns (False, snd draw, node, env, None)
                 else
                   (case compexweakLoop childVisits env edgeVisits0 edgeVisits0 of
                      OutOfFuel \<Rightarrow> OutOfFuel
                    | Fails e \<Rightarrow> Fails e
                    | Returns (ret, cell, env', w) \<Rightarrow>
                        Returns (ret, if wantLeak then snd draw else rand,
                                 setChildren node nodeState
                                   (children[bestChildIdx :=
                                      (children ! bestChildIdx)\<lparr>edgeVisits := cell\<rparr>]),
                                 env', w)))))"

text \<open>
  The end of \<^verbatim>\<open>Search::playoutDescend\<close> once the child is chosen and its virtual loss
  is taken, from the call of \<^verbatim>\<open>maybeCatchUpEdgeVisits\<close> on: what the worker does, in
  order, and the value it returns. For a new child the move is already made before the
  call; for an existing child it is made after it. The recursive descent into the child is
  the event \<open>Recurse\<close>; its result is the argument \<open>childFinished\<close>.
\<close>

datatype descend_event =
  UpdateStatsAfterPlayout | ReleaseVirtualLoss | MakeMove | Recurse | AddEdgeVisits int

definition descendChosenChild ::
  "constants \<Rightarrow> searchParams \<Rightarrow> ('g \<Rightarrow> real \<Rightarrow> bool \<times> 'g) \<Rightarrow> (int option \<times> bool) list
     \<Rightarrow> 'g \<Rightarrow> SearchNode \<Rightarrow> SearchNode \<Rightarrow> int \<Rightarrow> nat \<Rightarrow> bool \<Rightarrow> bool
     \<Rightarrow> (bool \<times> descend_event list) outcome" where
  "descendChosenChild K sp nextBool env rand node child nodeState bestChildIdx
       isNewChild childFinished =
     (case maybeCatchUpEdgeVisits K sp nextBool env rand node child nodeState bestChildIdx of
        OutOfFuel \<Rightarrow> OutOfFuel
      | Fails e \<Rightarrow> Fails e
      | Returns (caughtUp, rand1, node1, env1, w) \<Rightarrow>
          if caughtUp then Returns (True, [UpdateStatsAfterPlayout, ReleaseVirtualLoss])
          else
            (let before = (if isNewChild then [] else [MakeMove]) @ [Recurse] in
             if childFinished
             then Returns (True, before @ [AddEdgeVisits 1, UpdateStatsAfterPlayout,
                                          ReleaseVirtualLoss])
             else Returns (False, before @ [ReleaseVirtualLoss])))"

text \<open>
  The cell as the other workers leave it: the stores of the environment, in order, with
  no store of this worker.
\<close>

fun cellAfter :: "(int option \<times> bool) list \<Rightarrow> int \<Rightarrow> int" where
  "cellAfter [] cell = cell"
| "cellAfter ((interference, spurious) # env) cell =
     cellAfter env (case interference of None \<Rightarrow> cell | Some v \<Rightarrow> v)"

text \<open>
  Modelled from the spec: \<^verbatim>\<open>Rand::nextBool\<close> is declared in \<^verbatim>\<open>core/rand.h\<close>, which is
  not among the sources; the spec has the leak happen "with prob
  graphSearchCatchUpLeakProb". The generator is the sequence of its coming draws, each
  uniform on the interval from 0 (included) to 1 (excluded); \<open>nextBool(p)\<close> takes one draw
  and answers whether it is below \<open>p\<close>, which a uniform draw is with probability \<open>p\<close>. A
  generator with no draw left answers no.
\<close>

definition rand_nextBool :: "real list \<Rightarrow> real \<Rightarrow> bool \<times> real list" where
  "rand_nextBool g p = (case g of [] \<Rightarrow> (False, []) | u # g' \<Rightarrow> (u < p, g'))"

text \<open>Parameters with the leak switched off, and a generator that always answers no.\<close>

definition example_params :: searchParams where
  "example_params =
     \<lparr>cpuctExploration_param = 1, cpuctExplorationLog = 0.45, cpuctExplorationBase = 500,
      numThreads = 2, conservativePass = False, treeReuseCarryOverTimeFactor = 1,
      graphSearchCatchUpLeakProb = 0, rootDirichletNoiseTotalConcentration = 10.83,
      rootDirichletNoiseWeight = 0.25\<rparr>"

definition example_nextBool :: "nat \<Rightarrow> real \<Rightarrow> bool \<times> nat" where
  "example_nextBool g p = (False, Suc g)"

section \<open>The search loop of a worker\<close>

text \<open>
  The lambda \<^verbatim>\<open>searchLoop\<close> of \<^verbatim>\<open>Search::runWholeSearch\<close>. The values it captures are
  in \<open>loopCaptures\<close>; what one iteration reads from outside is in \<open>loopReads\<close>: the timer,
  the shared time limit, the stop flag, the result of \<^verbatim>\<open>runSinglePlayout\<close> and the value
  \<^verbatim>\<open>fetch_add\<close> returns. The model returns the values of \<^verbatim>\<open>timeUsed\<close> at which the
  worker recomputed the time limit (the body of the \<^verbatim>\<open>if\<close> under the comment
  "Cap of 10 times per second"), in order, for as many iterations as reads are given.
  The local \<^verbatim>\<open>lastTimeUsedRecomputingTcLimit\<close> is initialised to \<^verbatim>\<open>0.0\<close> before the loop
  and the loop never assigns it.
\<close>

record loopCaptures =
  pondering :: bool
  hasTc :: bool
  hasMaxTime :: bool
  maxVisits :: int
  maxPlayouts :: int
  maxTime :: real
  numNonPlayoutVisits :: int

record loopReads =
  timerSeconds :: real
  tcMaxTimeSeen :: real
  shouldStopNowSeen :: bool
  finishedPlayout :: bool
  numPlayoutsSharedBefore :: int

fun searchLoopIterations ::
  "loopCaptures \<Rightarrow> int \<Rightarrow> int \<Rightarrow> real \<Rightarrow> loopReads list \<Rightarrow> real list" where
  "searchLoopIterations cap threadIdx numPlayouts lastTimeUsedRecomputingTcLimit [] = []"
| "searchLoopIterations cap threadIdx numPlayouts lastTimeUsedRecomputingTcLimit (r # rest) =
     (let timeUsed = (if hasTc cap \<or> hasMaxTime cap then timerSeconds r else 0);
          tcMaxTimeLimit = (if hasTc cap then tcMaxTimeSeen r else 0);
          shouldStop0 = (numPlayouts \<ge> maxPlayouts cap
                         \<or> numPlayouts + numNonPlayoutVisits cap \<ge> maxVisits cap);
          shouldStop1 = (if hasMaxTime cap \<and> numPlayouts \<ge> 2 \<and> timeUsed \<ge> maxTime cap
                         then True else shouldStop0);
          shouldStop = (if hasTc cap \<and> numPlayouts \<ge> 2 \<and> timeUsed \<ge> tcMaxTimeLimit
                        then True else shouldStop1)
      in if shouldStop \<or> shouldStopNowSeen r then []
         else
           let recomputes =
                 (if \<not> pondering cap \<and> (hasTc cap \<or> hasMaxTime cap) \<and> threadIdx = 0
                     \<and> timeUsed \<ge> lastTimeUsedRecomputingTcLimit + 0.1
                  then [timeUsed] else []);
               numPlayouts1 =
                 (if finishedPlayout r then numPlayoutsSharedBefore r + 1 else numPlayouts)
           in recomputes
              @ searchLoopIterations cap threadIdx numPlayouts1 lastTimeUsedRecomputingTcLimit rest)"

definition searchLoop :: "loopCaptures \<Rightarrow> int \<Rightarrow> int \<Rightarrow> loopReads list \<Rightarrow> real list" where
  "searchLoop cap threadIdx numPlayoutsShared reads =
     searchLoopIterations cap threadIdx numPlayoutsShared 0 reads"

text \<open>A search under time control, and three iterations of worker 0 that read the timer
  at 0.15, 0.16 and 0.17 seconds, each finishing a playout.\<close>

definition example_captures :: loopCaptures where
  "example_captures =
     \<lparr>pondering = False, hasTc = True, hasMaxTime = False, maxVisits = 1000,
      maxPlayouts = 1000, maxTime = 10 ^ 30, numNonPlayoutVisits = 1\<rparr>"

definition example_reads :: "loopReads list" where
  "example_reads =
     [\<lparr>timerSeconds = 0.15, tcMaxTimeSeen = 5, shouldStopNowSeen = False,
       finishedPlayout = True, numPlayoutsSharedBefore = 0\<rparr>,
      \<lparr>timerSeconds = 0.16, tcMaxTimeSeen = 5, shouldStopNowSeen = False,
       finishedPlayout = True, numPlayoutsSharedBefore = 1\<rparr>,
      \<lparr>timerSeconds = 0.17, tcMaxTimeSeen = 5, shouldStopNowSeen = False,
       finishedPlayout = True, numPlayoutsSharedBefore = 2\<rparr>]"

section \<open>Dirichlet noise at the root\<close>

text \<open>
  A policy vector is the list of its \<^verbatim>\<open>policySize\<close> entries; an entry is legal when it
  is not negative. \<open>overLegal\<close> is the shape of the loops
  \<^verbatim>\<open>for(i...) if(policyProbs[i] >= 0) arr[i] = ...\<close>, which leave the other entries of
  the array as they are, and \<open>sumLegal\<close> that of the sums accumulated in them.
\<close>

definition overLegal :: "(real \<Rightarrow> real \<Rightarrow> real) \<Rightarrow> real list \<Rightarrow> real list \<Rightarrow> real list" where
  "overLegal f policyProbs arr = map2 (\<lambda>p a. if p \<ge> 0 then f p a else a) policyProbs arr"

definition sumLegal :: "real list \<Rightarrow> real list \<Rightarrow> real" where
  "sumLegal policyProbs arr = (\<Sum>(p, a)\<leftarrow>zip policyProbs arr. if p \<ge> 0 then a else 0)"

text \<open>
  \<^verbatim>\<open>Search::computeDirichletAlphaDistribution\<close>. \<open>alphaDistr\<close> is the output array as the
  caller passes it; it has at least \<^verbatim>\<open>policySize\<close> entries, and those after the first
  \<^verbatim>\<open>policySize\<close> are not touched.
\<close>

definition computeDirichletAlphaDistribution :: "real list \<Rightarrow> real list \<Rightarrow> error + real list" where
  "computeDirichletAlphaDistribution policyProbs alphaDistr =
     (let policySize = length policyProbs;
          legalCount = length (filter (\<lambda>p. p \<ge> 0) policyProbs)
      in if legalCount \<le> 0 then Inl StringError
         else if length alphaDistr < policySize then Inl OutOfBounds
         else
           let alpha0 = take policySize alphaDistr;
               alpha1 = overLegal (\<lambda>p a. ln (min 0.01 p + 1 / 10 ^ 20)) policyProbs alpha0;
               logPolicySum = sumLegal policyProbs alpha1;
               logPolicyMean = logPolicySum / real legalCount;
               alpha2 = overLegal (\<lambda>p a. max 0 (a - logPolicyMean)) policyProbs alpha1;
               alphaPropSum = sumLegal policyProbs alpha2;
               uniformProb = 1 / real legalCount;
               alpha3 =
                 (if alphaPropSum \<le> 0 then overLegal (\<lambda>p a. uniformProb) policyProbs alpha2
                  else overLegal (\<lambda>p a. 0.5 * (a / alphaPropSum + uniformProb))
                         policyProbs alpha2)
           in Inr (alpha3 @ drop policySize alphaDistr))"

text \<open>
  The first loop of \<^verbatim>\<open>Search::addDirichletNoise\<close>: one Gamma draw per legal move, in
  index order, from the generator \<open>rand\<close> with the operation \<open>nextGamma\<close>; 0 for the others.
\<close>

fun gammaDraws ::
  "('g \<Rightarrow> real \<Rightarrow> real \<times> 'g) \<Rightarrow> real \<Rightarrow> 'g \<Rightarrow> real list \<Rightarrow> real list \<Rightarrow> real list \<times> 'g" where
  "gammaDraws nextGamma conc rand (p # ps) (r # rs) =
     (if p \<ge> 0 then
        (case nextGamma rand (r * conc) of
           (g, rand1) \<Rightarrow>
             (case gammaDraws nextGamma conc rand1 ps rs of (gs, rand2) \<Rightarrow> (g # gs, rand2)))
      else
        (case gammaDraws nextGamma conc rand ps rs of (gs, rand2) \<Rightarrow> (0 # gs, rand2)))"
| "gammaDraws nextGamma conc rand ps rs = ([], rand)"

text \<open>
  \<^verbatim>\<open>Search::addDirichletNoise\<close>: the array \<open>r\<close> is the local buffer as it is found (it is
  not initialised), of \<^verbatim>\<open>NNPos::MAX_NN_POLICY_SIZE\<close> entries. The result is the generator
  and the new policy vector. When the draws sum to 0 the quotients \<^verbatim>\<open>r[i] / rSum\<close> of the
  code are no real numbers, and the result is \<open>NotANumber\<close>.
\<close>

definition addDirichletNoise ::
  "searchParams \<Rightarrow> ('g \<Rightarrow> real \<Rightarrow> real \<times> 'g) \<Rightarrow> 'g \<Rightarrow> real list \<Rightarrow> real list
     \<Rightarrow> error + ('g \<times> real list)" where
  "addDirichletNoise sp nextGamma rand policyProbs r =
     (case computeDirichletAlphaDistribution policyProbs r of
        Inl e \<Rightarrow> Inl e
      | Inr r1 \<Rightarrow>
          (case gammaDraws nextGamma (rootDirichletNoiseTotalConcentration sp) rand policyProbs r1 of
             (r2, rand1) \<Rightarrow>
               let rSum = sumLegal policyProbs r2
               in if rSum = 0 then Inl NotANumber
                  else
                    let r3 = map (\<lambda>x. x / rSum) r2;
                        weight = rootDirichletNoiseWeight sp
                    in Inr (rand1,
                            map2 (\<lambda>p x. if p \<ge> 0 then x * weight + p * (1 - weight) else p)
                              policyProbs r3)))"

text \<open>
  The proportions as the specification describes them: over the legal moves, half of a
  uniform share and half of a share shaped by the logarithm of the policy. The shape of a
  move is the excess of its clamped log policy over the mean of the legal moves; the share
  is the shape normalised to sum 1, and uniform when every shape is 0.
\<close>

definition legalMoves :: "real list \<Rightarrow> real list" where
  "legalMoves policyProbs = filter (\<lambda>p. p \<ge> 0) policyProbs"

definition uniformShare :: "real list \<Rightarrow> real" where
  "uniformShare policyProbs = 1 / real (length (legalMoves policyProbs))"

definition clampedLogPolicy :: "real \<Rightarrow> real" where
  "clampedLogPolicy p = ln (min 0.01 p + 1 / 10 ^ 20)"

definition logPolicyShape :: "real list \<Rightarrow> real \<Rightarrow> real" where
  "logPolicyShape policyProbs p =
     max 0 (clampedLogPolicy p
            - sum_list (map clampedLogPolicy (legalMoves policyProbs))
              / real (length (legalMoves policyProbs)))"

definition logPolicyShare :: "real list \<Rightarrow> real \<Rightarrow> real" where
  "logPolicyShare policyProbs p =
     (let total = sum_list (map (logPolicyShape policyProbs) (legalMoves policyProbs))
      in if total > 0 then logPolicyShape policyProbs p / total else uniformShare policyProbs)"

definition alphaProportion :: "real list \<Rightarrow> real \<Rightarrow> real" where
  "alphaProportion policyProbs p =
     0.5 * uniformShare policyProbs + 0.5 * logPolicyShare policyProbs p"

text \<open>
  The samples as the specification describes them: independent Gamma samples, one for each
  concentration of a list, drawn in order from the generator. The concentrations of the
  legal moves are their proportions times \<open>rootDirichletNoiseTotalConcentration\<close>.
\<close>

fun sampleGammas :: "('g \<Rightarrow> real \<Rightarrow> real \<times> 'g) \<Rightarrow> 'g \<Rightarrow> real list \<Rightarrow> real list \<times> 'g" where
  "sampleGammas nextGamma rand [] = ([], rand)"
| "sampleGammas nextGamma rand (alpha # alphas) =
     (case nextGamma rand alpha of
        (g, rand1) \<Rightarrow>
          (case sampleGammas nextGamma rand1 alphas of (gs, rand2) \<Rightarrow> (g # gs, rand2)))"

definition dirichletAlphas :: "searchParams \<Rightarrow> real list \<Rightarrow> real list" where
  "dirichletAlphas sp policyProbs =
     map (\<lambda>p. alphaProportion policyProbs p * rootDirichletNoiseTotalConcentration sp)
       (legalMoves policyProbs)"

text \<open>
  A generator for concrete runs: its state counts the draws made, and a draw is its
  concentration plus that count.
\<close>

definition example_nextGamma :: "nat \<Rightarrow> real \<Rightarrow> real \<times> nat" where
  "example_nextGamma g alpha = (alpha + real g, Suc g)"

section \<open>The search handle\<close>

text \<open>
  The board, the history and the ko hash table belong to the game rules, which are not
  among the sources at hand: they are the type parameters \<open>'b\<close>, \<open>'h\<close> and \<open>'k\<close>, and
  the operations of theirs that the search calls are the fields of \<open>game\<close>.
  \<open>hist_clear h b pla\<close> stands for \<^verbatim>\<open>clear(rootBoard,rootPla,rules,encorePhase)\<close> with the
  rules and the encore phase of \<open>h\<close>, followed by restoring the handicap assumption of \<open>h\<close>.
\<close>

record ('b, 'h, 'k) game =
  board_isLegal :: "'b \<Rightarrow> loc \<Rightarrow> player \<Rightarrow> bool \<Rightarrow> bool"
  board_clearSimpleKoLoc :: "'b \<Rightarrow> 'b"
  hist_isLegalTolerant :: "'h \<Rightarrow> 'b \<Rightarrow> loc \<Rightarrow> player \<Rightarrow> bool"
  hist_clear :: "'h \<Rightarrow> 'b \<Rightarrow> player \<Rightarrow> 'h"
  hist_makeBoardMoveAssumeLegal :: "'h \<Rightarrow> 'b \<Rightarrow> loc \<Rightarrow> player \<Rightarrow> 'k \<Rightarrow> bool \<Rightarrow> 'h \<times> 'b"
  hist_whiteHandicapBonusScore :: "'h \<Rightarrow> real"
  hist_passWouldEndGame :: "'h \<Rightarrow> 'b \<Rightarrow> player \<Rightarrow> bool"
  hist_passWouldEndPhase :: "'h \<Rightarrow> 'b \<Rightarrow> player \<Rightarrow> bool"
  ko_recompute :: "'h \<Rightarrow> 'k"
  getOpp :: "player \<Rightarrow> player"

text \<open>
  \<^verbatim>\<open>Search\<close>, with the fields the modelled operations read or write. Nodes live in
  \<open>heap\<close>, addressed by the pointers the code holds; \<open>delete\<close> removes a node from it and
  \<open>new\<close> puts one at \<open>nextAddr\<close>. \<open>nodeTable\<close> is \<^verbatim>\<open>nodeTable->entries\<close>: one map from
  hash to node pointer per shard, as a list of key-pointer pairs. The subtree value bias
  table, the pattern bonus table and the generator \<^verbatim>\<open>nonSearchRand\<close> are not modelled.
\<close>

record ('b, 'h, 'k) search =
  rootPla :: player
  rootBoard :: 'b
  rootHistory :: 'h
  rootHintLoc :: loc
  avoidMoveUntilByLocBlack :: "int list"
  avoidMoveUntilByLocWhite :: "int list"
  searchParams :: searchParams
  searchNodeAge :: nat
  plaThatSearchIsFor :: player
  effectiveSearchTimeCarriedOver :: real
  rootKoHashTable :: 'k
  rootNode :: "addr option"
  nodeTable :: "(nat \<times> addr) list list"
  heap :: "addr \<Rightarrow> SearchNode option"
  nextAddr :: addr
  numThreadsSpawned :: int
  oldNNOutputsToCleanUp :: "nat list"

fun foldOutcome :: "('a \<Rightarrow> 's \<Rightarrow> 's outcome) \<Rightarrow> 'a list \<Rightarrow> 's \<Rightarrow> 's outcome" where
  "foldOutcome f [] s = Returns s"
| "foldOutcome f (x # xs) s =
     (case f x s of
        Returns s' \<Rightarrow> foldOutcome f xs s'
      | Fails e \<Rightarrow> Fails e
      | OutOfFuel \<Rightarrow> OutOfFuel)"

subsection \<open>The worker pool\<close>

definition numAdditionalThreadsToUseForTasks :: "('b, 'h, 'k) search \<Rightarrow> int" where
  "numAdditionalThreadsToUseForTasks s = numThreads (searchParams s) - 1"

text \<open>\<^verbatim>\<open>Search::spawnThreadsIfNeeded\<close>, as far as the count of spawned threads goes.\<close>

definition spawnThreadsIfNeeded :: "('b, 'h, 'k) search \<Rightarrow> ('b, 'h, 'k) search" where
  "spawnThreadsIfNeeded s =
     (let desiredNumAdditionalThreads = numAdditionalThreadsToUseForTasks s in
      if numThreadsSpawned s \<ge> desiredNumAdditionalThreads then s
      else s\<lparr>numThreadsSpawned := desiredNumAdditionalThreads\<rparr>)"

text \<open>
  \<^verbatim>\<open>Search::performTaskWithThreads\<close>: the task runs once for every thread index from 0
  to the number of additional threads. The runs are concurrent in the code; the model
  runs them one after the other in index order.
\<close>

definition performTaskWithThreads ::
  "(nat \<Rightarrow> ('b, 'h, 'k) search \<Rightarrow> ('b, 'h, 'k) search outcome)
     \<Rightarrow> ('b, 'h, 'k) search \<Rightarrow> ('b, 'h, 'k) search outcome" where
  "performTaskWithThreads task s =
     (let s1 = spawnThreadsIfNeeded s;
          numAdditionalThreadsToUse = numAdditionalThreadsToUseForTasks s1
      in if numAdditionalThreadsToUse \<le> 0 then task 0 s1
         else if \<not> numAdditionalThreadsToUse \<le> numThreadsSpawned s1 then Fails AssertFailed
         else foldOutcome task [0..<nat numAdditionalThreadsToUse + 1] s1)"

text \<open>
  The shards that thread \<open>threadIdx\<close> handles: from
  \<^verbatim>\<open>(uint64_t)(threadIdx) * entries.size() / (numAdditionalThreads+1)\<close> up to the same
  for \<open>threadIdx + 1\<close>. The product is a 64-bit unsigned product and wraps.
\<close>

definition shardRange :: "nat \<Rightarrow> nat \<Rightarrow> nat \<Rightarrow> nat list" where
  "shardRange threadIdx numShards numAdditionalThreads =
     [(threadIdx * numShards mod 2 ^ 64) div (numAdditionalThreads + 1) ..<
      ((threadIdx + 1) * numShards mod 2 ^ 64) div (numAdditionalThreads + 1)]"

subsection \<open>Deleting table nodes\<close>

definition deleteNodes :: "addr list \<Rightarrow> (addr \<Rightarrow> SearchNode option) \<Rightarrow> (addr \<Rightarrow> SearchNode option)" where
  "deleteNodes addrs h = fold (\<lambda>a h'. h'(a := None)) addrs h"

text \<open>The body of the loop over shards in \<^verbatim>\<open>deleteAllTableNodesMulithreaded\<close>.\<close>

definition clearShard :: "nat \<Rightarrow> ('b, 'h, 'k) search \<Rightarrow> ('b, 'h, 'k) search outcome" where
  "clearShard i s =
     (if i \<ge> length (nodeTable s) then Fails OutOfBounds
      else Returns (s\<lparr>heap := deleteNodes (map snd (nodeTable s ! i)) (heap s),
                      nodeTable := (nodeTable s)[i := []]\<rparr>))"

text \<open>\<^verbatim>\<open>Search::deleteAllTableNodesMulithreaded\<close>.\<close>

definition deleteAllTableNodesMulithreaded ::
  "('b, 'h, 'k) search \<Rightarrow> ('b, 'h, 'k) search outcome" where
  "deleteAllTableNodesMulithreaded s =
     (let numAdditionalThreads = numAdditionalThreadsToUseForTasks s in
      if \<not> numAdditionalThreads \<ge> 0 then Fails AssertFailed
      else performTaskWithThreads
             (\<lambda>threadIdx s'. foldOutcome clearShard
                 (shardRange threadIdx (length (nodeTable s')) (nat numAdditionalThreads)) s')
             s)"

text \<open>
  The loop over one shard in
  \<^verbatim>\<open>deleteAllOldOrAllNewTableNodesAndSubtreeValueBiasMulithreaded\<close>: an entry whose node
  has \<^verbatim>\<open>old == (nodeAge < searchNodeAge)\<close> is deleted and erased, the others stay.
\<close>

fun sweepEntries ::
  "bool \<Rightarrow> nat \<Rightarrow> (nat \<times> addr) list \<Rightarrow> (addr \<Rightarrow> SearchNode option)
     \<Rightarrow> ((nat \<times> addr) list \<times> (addr \<Rightarrow> SearchNode option)) outcome" where
  "sweepEntries old age [] h = Returns ([], h)"
| "sweepEntries old age ((key, a) # rest) h =
     (case h a of
        None \<Rightarrow> Fails NullDeref
      | Some node \<Rightarrow>
          if old = (nodeAge node < age)
          then sweepEntries old age rest (h(a := None))
          else (case sweepEntries old age rest h of
                  Returns (kept, h') \<Rightarrow> Returns ((key, a) # kept, h')
                | Fails e \<Rightarrow> Fails e
                | OutOfFuel \<Rightarrow> OutOfFuel))"

definition sweepShard :: "bool \<Rightarrow> nat \<Rightarrow> ('b, 'h, 'k) search \<Rightarrow> ('b, 'h, 'k) search outcome" where
  "sweepShard old i s =
     (if i \<ge> length (nodeTable s) then Fails OutOfBounds
      else case sweepEntries old (searchNodeAge s) (nodeTable s ! i) (heap s) of
        Returns (kept, h') \<Rightarrow> Returns (s\<lparr>heap := h', nodeTable := (nodeTable s)[i := kept]\<rparr>)
      | Fails e \<Rightarrow> Fails e
      | OutOfFuel \<Rightarrow> OutOfFuel)"

definition deleteAllOldOrAllNewTableNodesAndSubtreeValueBiasMulithreaded ::
  "bool \<Rightarrow> ('b, 'h, 'k) search \<Rightarrow> ('b, 'h, 'k) search outcome" where
  "deleteAllOldOrAllNewTableNodesAndSubtreeValueBiasMulithreaded old s =
     (let numAdditionalThreads = numAdditionalThreadsToUseForTasks s in
      if \<not> numAdditionalThreads \<ge> 0 then Fails AssertFailed
      else performTaskWithThreads
             (\<lambda>threadIdx s'. foldOutcome (sweepShard old)
                 (shardRange threadIdx (length (nodeTable s')) (nat numAdditionalThreads)) s')
             s)"

subsection \<open>Clearing the search\<close>

text \<open>\<^verbatim>\<open>Search::clearOldNNOutputs\<close> and \<^verbatim>\<open>Search::clearSearch\<close>.\<close>

definition clearOldNNOutputs :: "('b, 'h, 'k) search \<Rightarrow> ('b, 'h, 'k) search" where
  "clearOldNNOutputs s = s\<lparr>oldNNOutputsToCleanUp := []\<rparr>"

definition clearSearch :: "('b, 'h, 'k) search \<Rightarrow> ('b, 'h, 'k) search outcome" where
  "clearSearch s =
     (case deleteAllTableNodesMulithreaded (s\<lparr>effectiveSearchTimeCarriedOver := 0\<rparr>) of
        Fails e \<Rightarrow> Fails e
      | OutOfFuel \<Rightarrow> OutOfFuel
      | Returns s1 \<Rightarrow>
          let s2 = (case rootNode s1 of
                      None \<Rightarrow> s1
                    | Some rootAddr \<Rightarrow>
                        s1\<lparr>heap := (heap s1)(rootAddr := None), rootNode := None\<rparr>);
              s3 = clearOldNNOutputs s2
          in Returns (s3\<lparr>searchNodeAge := 0\<rparr>))"

text \<open>\<^verbatim>\<open>Search::setPosition\<close> and \<^verbatim>\<open>Search::setPlayerAndClearHistory\<close>.\<close>

definition setPosition ::
  "('b, 'h, 'k) game \<Rightarrow> ('b, 'h, 'k) search \<Rightarrow> player \<Rightarrow> 'b \<Rightarrow> 'h
     \<Rightarrow> ('b, 'h, 'k) search outcome" where
  "setPosition G s pla board history =
     (case clearSearch s of
        Fails e \<Rightarrow> Fails e
      | OutOfFuel \<Rightarrow> OutOfFuel
      | Returns s1 \<Rightarrow>
          Returns (s1\<lparr>rootPla := pla, plaThatSearchIsFor := C_EMPTY, rootBoard := board,
                      rootHistory := history, rootKoHashTable := ko_recompute G history,
                      avoidMoveUntilByLocBlack := [], avoidMoveUntilByLocWhite := []\<rparr>))"

definition setPlayerAndClearHistory ::
  "('b, 'h, 'k) game \<Rightarrow> ('b, 'h, 'k) search \<Rightarrow> player \<Rightarrow> ('b, 'h, 'k) search outcome" where
  "setPlayerAndClearHistory G s pla =
     (case clearSearch s of
        Fails e \<Rightarrow> Fails e
      | OutOfFuel \<Rightarrow> OutOfFuel
      | Returns s1 \<Rightarrow>
          let board1 = board_clearSimpleKoLoc G (rootBoard s1);
              history1 = hist_clear G (rootHistory s1) board1 pla
          in Returns (s1\<lparr>rootPla := pla, plaThatSearchIsFor := C_EMPTY, rootBoard := board1,
                         rootHistory := history1, rootKoHashTable := ko_recompute G history1,
                         avoidMoveUntilByLocBlack := [], avoidMoveUntilByLocWhite := []\<rparr>))"


subsection \<open>Advancing the root by a move\<close>

text \<open>\<^verbatim>\<open>Search::isLegalTolerant\<close>.\<close>

definition isLegalTolerant ::
  "('b, 'h, 'k) game \<Rightarrow> ('b, 'h, 'k) search \<Rightarrow> loc \<Rightarrow> player \<Rightarrow> bool" where
  "isLegalTolerant G s mv movePla =
     (let multiStoneSuicideLegal = True in
      if movePla \<noteq> rootPla s
      then board_isLegal G (board_clearSimpleKoLoc G (rootBoard s)) mv movePla
             multiStoneSuicideLegal
      else hist_isLegalTolerant G (rootHistory s) (rootBoard s) mv movePla)"

text \<open>
  \<^verbatim>\<open>SearchNode::iterateAndCountChildrenInArray\<close>: the number of leading non-null slots
  among the first \<open>childrenCapacity\<close>. Reading a null array, or past the end of an array
  shorter than the capacity, is a failure.
\<close>

definition iterateAndCountChildrenInArray ::
  "SearchChildPointer list option \<Rightarrow> nat \<Rightarrow> error + nat" where
  "iterateAndCountChildrenInArray children childrenCapacity =
     (case children of
        None \<Rightarrow> if childrenCapacity = 0 then Inr 0 else Inl NullDeref
      | Some cs \<Rightarrow>
          let numChildren = length (takeWhile (\<lambda>c. data c \<noteq> None) (take childrenCapacity cs))
          in if numChildren = length cs \<and> numChildren < childrenCapacity then Inl OutOfBounds
             else Inr numChildren)"

definition occupiedSlots :: "SearchChildPointer list option \<Rightarrow> nat \<Rightarrow> SearchChildPointer list" where
  "occupiedSlots children numChildren =
     (case children of None \<Rightarrow> [] | Some cs \<Rightarrow> take numChildren cs)"

text \<open>
  The copy constructor \<^verbatim>\<open>SearchNode(const SearchNode& other, bool fnt, bool
  copySubtreeValueBias)\<close>: the evaluator output of \<open>other\<close> is dereferenced, each allocated
  child array is copied slot by slot over its full capacity, the subtree value bias is
  reset, and copying it is asserted not to be asked for.
\<close>

definition copyChildArray ::
  "nat \<Rightarrow> SearchChildPointer list option \<Rightarrow> error + SearchChildPointer list option" where
  "copyChildArray n arr =
     (case arr of
        None \<Rightarrow> Inr None
      | Some cs \<Rightarrow> if length cs < n then Inl OutOfBounds else Inr (Some (take n cs)))"

definition cloneSearchNode :: "constants \<Rightarrow> SearchNode \<Rightarrow> bool \<Rightarrow> bool \<Rightarrow> error + SearchNode" where
  "cloneSearchNode K other fnt copySubtreeValueBias =
     (case nnOutput other of
        None \<Rightarrow> Inl NullDeref
      | Some nn \<Rightarrow>
          (case copyChildArray (CHILDREN0SIZE K) (children0 other) of
             Inl e \<Rightarrow> Inl e
           | Inr c0 \<Rightarrow>
               (case copyChildArray (CHILDREN1SIZE K) (children1 other) of
                  Inl e \<Rightarrow> Inl e
                | Inr c1 \<Rightarrow>
                    (case copyChildArray (CHILDREN2SIZE K) (children2 other) of
                       Inl e \<Rightarrow> Inl e
                     | Inr c2 \<Rightarrow>
                         if copySubtreeValueBias then Inl AssertFailed
                         else Inr (other\<lparr>forceNonTerminal := fnt, nnOutput := Some nn,
                                          children0 := c0, children1 := c1, children2 := c2,
                                          lastSubtreeValueBiasDeltaSum := 0,
                                          lastSubtreeValueBiasWeight := 0,
                                          subtreeValueBiasTableEntry := None\<rparr>)))))"

text \<open>
  \<^verbatim>\<open>Search::applyRecursivelyAnyOrderMulithreadedHelper\<close> with the null function: a node
  whose age is the current one is done; otherwise its children are walked first and its
  age is set afterwards. The recursion follows the node graph, so the model carries fuel:
  the first argument bounds the depth of the recursion.
\<close>

primrec applyRecursivelyAnyOrderMulithreadedHelper ::
  "nat \<Rightarrow> constants \<Rightarrow> nat \<Rightarrow> addr \<Rightarrow> (addr \<Rightarrow> SearchNode option)
     \<Rightarrow> (addr \<Rightarrow> SearchNode option) outcome" where
  "applyRecursivelyAnyOrderMulithreadedHelper 0 K age = (\<lambda>a h. OutOfFuel)"
| "applyRecursivelyAnyOrderMulithreadedHelper (Suc fuel) K age =
     (\<lambda>a h.
        case h a of
          None \<Rightarrow> Fails NullDeref
        | Some node \<Rightarrow>
            if nodeAge node = age then Returns h
            else
              (case iterateAndCountChildrenInArray (fst (getChildren K node (state node)))
                      (snd (getChildren K node (state node))) of
                 Inl e \<Rightarrow> Fails e
               | Inr numChildren \<Rightarrow>
                   (case foldOutcome
                           (\<lambda>c h'. case data c of
                                      None \<Rightarrow> Fails NullDeref
                                    | Some child \<Rightarrow>
                                        applyRecursivelyAnyOrderMulithreadedHelper fuel K age
                                          child h')
                           (occupiedSlots (fst (getChildren K node (state node))) numChildren) h of
                      Fails e \<Rightarrow> Fails e
                    | OutOfFuel \<Rightarrow> OutOfFuel
                    | Returns h1 \<Rightarrow>
                        (case h1 a of
                           None \<Rightarrow> Fails NullDeref
                         | Some node1 \<Rightarrow> Returns (h1(a \<mapsto> node1\<lparr>nodeAge := age\<rparr>))))))"

text \<open>
  \<^verbatim>\<open>Search::applyRecursivelyAnyOrderMulithreaded\<close> with the null function:
  \<^verbatim>\<open>searchNodeAge\<close> (32 bits, unsigned) is incremented, then every worker walks the given
  nodes. The additional workers walk the children in a shuffled order; in the model they
  come after worker 0 and find the nodes done.
\<close>

definition applyRecursivelyAnyOrderMulithreaded ::
  "nat \<Rightarrow> constants \<Rightarrow> addr list \<Rightarrow> ('b, 'h, 'k) search \<Rightarrow> ('b, 'h, 'k) search outcome" where
  "applyRecursivelyAnyOrderMulithreaded fuel K nodes s =
     performTaskWithThreads
       (\<lambda>threadIdx s'.
          case foldOutcome (applyRecursivelyAnyOrderMulithreadedHelper fuel K (searchNodeAge s'))
                 nodes (heap s') of
            Returns h \<Rightarrow> Returns (s'\<lparr>heap := h\<rparr>)
          | Fails e \<Rightarrow> Fails e
          | OutOfFuel \<Rightarrow> OutOfFuel)
       (s\<lparr>searchNodeAge := (searchNodeAge s + 1) mod 2 ^ 32\<rparr>)"

text \<open>
  The part of \<^verbatim>\<open>Search::makeMove\<close> under \<^verbatim>\<open>if(rootNode != NULL)\<close>. The first occupied
  slot of the root whose move is the move played is the found child; it is dropped when its
  node has no evaluator output. A found child is copied to a new node, which becomes the
  root; the nodes reachable from it are marked and the table is swept. The old root is not
  in the table, and this code does not delete it. (For a root without visits the quotient
  of the visit counts is not a real number in the code; the model's value of the carried-over
  time is meant for a root with visits.)
\<close>

definition findChild :: "SearchChildPointer list \<Rightarrow> loc \<Rightarrow> SearchChildPointer option" where
  "findChild occupied mv = find (\<lambda>c. moveLoc c = mv) occupied"

definition promoteChild ::
  "nat \<Rightarrow> constants \<Rightarrow> ('b, 'h, 'k) search \<Rightarrow> SearchNode \<Rightarrow> SearchNode
     \<Rightarrow> ('b, 'h, 'k) search outcome" where
  "promoteChild fuel K s rootN childN =
     (let rootVisits = visits (stats rootN);
          childVisits = visits (stats childN);
          visitProportion0 = real_of_int childVisits / real_of_int rootVisits;
          visitProportion = (if visitProportion0 > 1 then 1 else visitProportion0);
          carried = effectiveSearchTimeCarriedOver s * visitProportion
                    * treeReuseCarryOverTimeFactor (searchParams s)
      in case cloneSearchNode K childN True False of
           Inl e \<Rightarrow> Fails e
         | Inr newRoot \<Rightarrow>
             (let a = nextAddr s;
                  s1 = s\<lparr>effectiveSearchTimeCarriedOver := carried,
                         heap := (heap s)(a \<mapsto> newRoot), nextAddr := Suc a,
                         rootNode := Some a\<rparr>
              in case applyRecursivelyAnyOrderMulithreaded fuel K [a] s1 of
                   Fails e \<Rightarrow> Fails e
                 | OutOfFuel \<Rightarrow> OutOfFuel
                 | Returns s2 \<Rightarrow>
                     deleteAllOldOrAllNewTableNodesAndSubtreeValueBiasMulithreaded True s2))"

definition reuseOrClear ::
  "nat \<Rightarrow> constants \<Rightarrow> ('b, 'h, 'k) search \<Rightarrow> loc \<Rightarrow> ('b, 'h, 'k) search outcome" where
  "reuseOrClear fuel K s mv =
     (case rootNode s of
        None \<Rightarrow> Returns s
      | Some rootAddr \<Rightarrow>
          (case heap s rootAddr of
             None \<Rightarrow> Fails NullDeref
           | Some rootN \<Rightarrow>
               (case iterateAndCountChildrenInArray (fst (getChildren K rootN (state rootN)))
                       (snd (getChildren K rootN (state rootN))) of
                  Inl e \<Rightarrow> Fails e
                | Inr numChildren \<Rightarrow>
                    (case findChild
                            (occupiedSlots (fst (getChildren K rootN (state rootN))) numChildren)
                            mv of
                       None \<Rightarrow> clearSearch s
                     | Some slot \<Rightarrow>
                         (case data slot of
                            None \<Rightarrow> Fails AssertFailed
                          | Some child \<Rightarrow>
                              (case heap s child of
                                 None \<Rightarrow> Fails NullDeref
                               | Some childN \<Rightarrow>
                                   if nnOutput childN = None then clearSearch s
                                   else promoteChild fuel K s rootN childN))))))"

text \<open>
  \<^verbatim>\<open>Search::makeMove(Loc moveLoc, Player movePla, bool preventEncore)\<close>. The result is
  the boolean it returns and the search handle afterwards.
\<close>

definition clearSearchIf :: "bool \<Rightarrow> ('b, 'h, 'k) search \<Rightarrow> ('b, 'h, 'k) search outcome" where
  "clearSearchIf b s = (if b then clearSearch s else Returns s)"

definition obind :: "'a outcome \<Rightarrow> ('a \<Rightarrow> 'c outcome) \<Rightarrow> 'c outcome" where
  "obind m f = (case m of Returns x \<Rightarrow> f x | Fails e \<Rightarrow> Fails e | OutOfFuel \<Rightarrow> OutOfFuel)"

definition playRootMove ::
  "('b, 'h, 'k) game \<Rightarrow> ('b, 'h, 'k) search \<Rightarrow> loc \<Rightarrow> bool \<Rightarrow> ('b, 'h, 'k) search" where
  "playRootMove G s mv preventEncore =
     (case hist_makeBoardMoveAssumeLegal G (rootHistory s) (rootBoard s) mv (rootPla s)
             (rootKoHashTable s) preventEncore of
        (history1, board1) \<Rightarrow>
          s\<lparr>rootHistory := history1, rootBoard := board1, rootPla := getOpp G (rootPla s),
            rootKoHashTable := ko_recompute G history1,
            avoidMoveUntilByLocBlack := [], avoidMoveUntilByLocWhite := []\<rparr>)"

definition makeMove ::
  "('b, 'h, 'k) game \<Rightarrow> constants \<Rightarrow> nat \<Rightarrow> ('b, 'h, 'k) search \<Rightarrow> loc \<Rightarrow> player \<Rightarrow> bool
     \<Rightarrow> (bool \<times> ('b, 'h, 'k) search) outcome" where
  "makeMove G K fuel s mv movePla preventEncore =
     (if \<not> isLegalTolerant G s mv movePla then Returns (False, s)
      else
        obind (if movePla \<noteq> rootPla s then setPlayerAndClearHistory G s movePla else Returns s)
          (\<lambda>s1. obind (reuseOrClear fuel K s1 mv)
          (\<lambda>s2.
             let oldWhiteHandicapBonusScore = hist_whiteHandicapBonusScore G (rootHistory s2);
                 s3 = playRootMove G s2 mv preventEncore
             in obind (clearSearchIf
                         (hist_whiteHandicapBonusScore G (rootHistory s3)
                            \<noteq> oldWhiteHandicapBonusScore) s3)
                (\<lambda>s4. obind (clearSearchIf
                                (conservativePass (searchParams s4)
                                 \<and> hist_passWouldEndGame G (rootHistory s4) (rootBoard s4)
                                      (rootPla s4)) s4)
                (\<lambda>s5. obind (clearSearchIf
                                (preventEncore
                                 \<and> hist_passWouldEndPhase G (rootHistory s5) (rootBoard s5)
                                      (rootPla s5)) s5)
                (\<lambda>s6. Returns (True, s6)))))))"


subsection \<open>A small search tree\<close>

text \<open>
  A game whose every move but 0 is legal, and a handle whose root (at address 0, with 7
  visits) has the children 1 (move 7) and 2 (move 8); node 1 has the child 3; node 4 is in
  the table and hangs on nothing. Two shards, two threads.
\<close>

definition example_game :: "(nat, nat, nat) game" where
  "example_game =
     \<lparr>board_isLegal = (\<lambda>b mv pla suicide. mv \<noteq> 0),
      board_clearSimpleKoLoc = (\<lambda>b. b),
      hist_isLegalTolerant = (\<lambda>h b mv pla. mv \<noteq> 0),
      hist_clear = (\<lambda>h b pla. 0),
      hist_makeBoardMoveAssumeLegal = (\<lambda>h b mv pla k pe. (Suc h, Suc b)),
      hist_whiteHandicapBonusScore = (\<lambda>h. 0),
      hist_passWouldEndGame = (\<lambda>h b pla. False),
      hist_passWouldEndPhase = (\<lambda>h b pla. False),
      ko_recompute = (\<lambda>h. h),
      getOpp = (\<lambda>pla. if pla = P_BLACK then P_WHITE else P_BLACK)\<rparr>"

definition example_leaf :: SearchNode where
  "example_leaf =
     fresh_node\<lparr>state := STATE_EXPANDED0, nnOutput := Some 1, nodeAge := 5,
       children0 := Some [\<lparr>data = None, edgeVisits = 0, moveLoc = 0\<rparr>,
                          \<lparr>data = None, edgeVisits = 0, moveLoc = 0\<rparr>]\<rparr>"

definition example_heap :: "addr \<Rightarrow> SearchNode option" where
  "example_heap =
     (\<lambda>a. None)
       (0 \<mapsto> example_leaf\<lparr>forceNonTerminal := True, stats := example_stats,
                children0 := Some [\<lparr>data = Some 1, edgeVisits = 3, moveLoc = 7\<rparr>,
                                   \<lparr>data = Some 2, edgeVisits = 4, moveLoc = 8\<rparr>]\<rparr>,
        1 \<mapsto> example_leaf\<lparr>
                children0 := Some [\<lparr>data = Some 3, edgeVisits = 1, moveLoc = 9\<rparr>,
                                   \<lparr>data = None, edgeVisits = 0, moveLoc = 0\<rparr>]\<rparr>,
        2 \<mapsto> example_leaf,
        3 \<mapsto> example_leaf,
        4 \<mapsto> example_leaf)"

definition example_search :: "(nat, nat, nat) search" where
  "example_search =
     \<lparr>rootPla = P_BLACK, rootBoard = 0, rootHistory = 0, rootHintLoc = 0,
      avoidMoveUntilByLocBlack = [3], avoidMoveUntilByLocWhite = [4],
      searchParams = example_params, searchNodeAge = 5, plaThatSearchIsFor = P_BLACK,
      effectiveSearchTimeCarriedOver = 2, rootKoHashTable = 0, rootNode = Some 0,
      nodeTable = [[(11, 1), (14, 4)], [(12, 2), (13, 3)]],
      heap = example_heap, nextAddr = 10, numThreadsSpawned = 0,
      oldNNOutputsToCleanUp = [99]\<rparr>"

subsection \<open>Frames\<close>

text \<open>Only the tree changed: the heap, the table and the count of spawned threads.\<close>

definition treeOnly :: "('b, 'h, 'k) search \<Rightarrow> ('b, 'h, 'k) search \<Rightarrow> bool" where
  "treeOnly s s' \<longleftrightarrow>
     s' = s\<lparr>heap := heap s', nodeTable := nodeTable s', numThreadsSpawned := numThreadsSpawned s'\<rparr>
     \<and> length (nodeTable s') = length (nodeTable s)"

text \<open>The task that \<open>deleteAllTableNodesMulithreaded\<close> hands to the threads.\<close>

definition clearTask :: "nat \<Rightarrow> nat \<Rightarrow> ('b, 'h, 'k) search \<Rightarrow> ('b, 'h, 'k) search outcome" where
  "clearTask n threadIdx s' = foldOutcome clearShard (shardRange threadIdx (length (nodeTable s')) n) s'"

subsection \<open>Reachability in the node graph\<close>

text \<open>
  The children of a node are the nodes in the occupied slots of the array its state
  selects, as \<open>applyRecursivelyAnyOrderMulithreadedHelper\<close> walks them. \<open>reach K h a b\<close>:
  node \<open>b\<close> is reached from node \<open>a\<close> along child pointers in the heap \<open>h\<close>.
\<close>

definition childAddrs :: "constants \<Rightarrow> SearchNode \<Rightarrow> addr list" where
  "childAddrs K node =
     (case iterateAndCountChildrenInArray (fst (getChildren K node (state node)))
             (snd (getChildren K node (state node))) of
        Inl e \<Rightarrow> []
      | Inr numChildren \<Rightarrow>
          List.map_filter data
            (occupiedSlots (fst (getChildren K node (state node))) numChildren))"




text \<open>
  \<open>shrunk age h h'\<close>: the heap \<open>h'\<close> is \<open>h\<close> without some nodes, all of them of an age
  below \<open>age\<close>.
\<close>

definition shrunk ::
  "nat \<Rightarrow> (addr \<Rightarrow> SearchNode option) \<Rightarrow> (addr \<Rightarrow> SearchNode option) \<Rightarrow> bool" where
  "shrunk age h h' \<longleftrightarrow>
     (\<forall>y. h' y = h y \<or> (h' y = None \<and> (\<exists>node. h y = Some node \<and> nodeAge node < age)))"









text \<open>
  \<open>aged age h x\<close>: the node at \<open>x\<close> has the age \<open>age\<close>. \<open>walked K age h\<close>: the nodes of
  that age are closed under child pointers, as the walk leaves them.
\<close>

definition aged :: "nat \<Rightarrow> (addr \<Rightarrow> SearchNode option) \<Rightarrow> addr \<Rightarrow> bool" where
  "aged age h x = (case h x of None \<Rightarrow> False | Some n \<Rightarrow> nodeAge n = age)"








section \<open>Theorems\<close>

subsection \<open>Growth of the child array\<close>

lemma copySlots_length:
  "copySlots idxs old cs = Inr new \<Longrightarrow> length new = length cs"
  by (induction idxs arbitrary: cs) (auto split: if_splits option.splits)

lemma copySlots_other:
  "copySlots idxs old cs = Inr new \<Longrightarrow> j \<notin> set idxs \<Longrightarrow> new ! j = cs ! j"
  by (induction idxs arbitrary: cs) (auto split: if_splits option.splits)

lemma copySlots_copied:
  "copySlots idxs old cs = Inr new \<Longrightarrow> j \<in> set idxs \<Longrightarrow>
     data (new ! j) = data (old ! j) \<and> edgeVisits (new ! j) = edgeVisits (old ! j)
     \<and> moveLoc (new ! j) = moveLoc (old ! j)"
proof (induction idxs arbitrary: cs)
  case Nil
  then show ?case by simp
next
  case (Cons i rest)
  from Cons.prems(1) obtain child where
    i_old: "i < length old" and child: "data (old ! i) = Some child" and i_cs: "i < length cs"
    and rec: "copySlots rest old
        (cs[i := (cs ! i)\<lparr>data := Some child, edgeVisits := edgeVisits (old ! i),
                           moveLoc := moveLoc (old ! i)\<rparr>]) = Inr new"
    by (auto split: if_splits option.splits)
  show ?case
  proof (cases "j \<in> set rest")
    case True
    then show ?thesis using Cons.IH [OF rec] by simp
  next
    case False
    with Cons.prems(2) have "j = i" by simp
    then show ?thesis
      using copySlots_other [OF rec False] i_cs child by simp
  qed
qed

lemma copySlots_succeeds:
  "\<forall>i \<in> set idxs. i < length old \<and> data (old ! i) \<noteq> None \<and> i < length cs \<Longrightarrow>
     \<exists>new. copySlots idxs old cs = Inr new"
  by (induction idxs arbitrary: cs) (auto split: option.splits)

lemma growInto_copied:
  assumes "growInto K n m arr = Inr new"
  shows "length new = m"
    and "0 < n \<Longrightarrow> \<exists>old. arr = Some old \<and>
       (\<forall>i<n. data (new ! i) = data (old ! i) \<and> edgeVisits (new ! i) = edgeVisits (old ! i)
            \<and> moveLoc (new ! i) = moveLoc (old ! i))"
    and "\<forall>i. n \<le> i \<longrightarrow> i < m \<longrightarrow> new ! i = newSearchChildPointer K"
  using assms
    apply (auto simp: growInto_def Let_def split: if_splits option.splits dest: copySlots_length copySlots_copied)
  using copySlots_other apply fastforce
  done

lemma growInto_succeeds:
  assumes "allSlotsFull n arr" "n \<le> m"
  shows "\<exists>new. growInto K n m arr = Inr new"
  using assms
  by (auto simp: growInto_def allSlotsFull_def Let_def list_all_length split: option.splits
      intro!: copySlots_succeeds)


lemma copySlots_bounds:
  "copySlots idxs old cs = Inr new \<Longrightarrow> j \<in> set idxs \<Longrightarrow> j < length cs \<and> j < length old"
proof (induction idxs arbitrary: cs)
  case Nil
  then show ?case by simp
next
  case (Cons i rest)
  from Cons.prems(1) obtain child where
    i_old: "i < length old" and i_cs: "i < length cs"
    and rec: "copySlots rest old
        (cs[i := (cs ! i)\<lparr>data := Some child, edgeVisits := edgeVisits (old ! i),
                           moveLoc := moveLoc (old ! i)\<rparr>]) = Inr new"
    by (auto split: if_splits option.splits)
  show ?case
  proof (cases "j = i")
    case True
    then show ?thesis using i_old i_cs by simp
  next
    case False
    with Cons.prems(2) have "j \<in> set rest" by simp
    from Cons.IH [OF rec this] show ?thesis by simp
  qed
qed

lemma copySlots_same:
  fixes old :: "SearchChildPointer list"
  assumes "copySlots idxs old cs = Inr new" "j \<in> set idxs"
  shows "new ! j = old ! j"
  using copySlots_copied [OF assms] by (intro SearchChildPointer.equality) simp_all

lemma growInto_take:
  fixes old :: "SearchChildPointer list"
  assumes "growInto K n m (Some old) = Inr new" "length old = n"
  shows "take (length old) new = old \<and> length new = m"
proof (cases "n = 0")
  case True
  then show ?thesis using assms by (auto simp: growInto_def Let_def)
next
  case False
  then have c: "copySlots [0..<n] old (replicate m (newSearchChildPointer K)) = Inr new"
    using assms by (simp add: growInto_def Let_def)
  have len: "length new = m" using copySlots_length [OF c] by simp
  have nm: "n \<le> m"
  proof (rule ccontr)
    assume "\<not> n \<le> m"
    then have "m \<in> set [0..<n]" by simp
    from copySlots_bounds [OF c this] show False by simp
  qed
  have "take n new = old"
    by (rule nth_equalityI) (use len nm assms(2) copySlots_same [OF c] in auto)
  then show ?thesis using len assms(2) by simp
qed

lemma tryExpanding_growing:
  "stateValue = STATE_GROWING1 \<or> stateValue = STATE_GROWING2 \<Longrightarrow>
     tryExpandingChildrenCapacityAssumeFull K node stateValue = Inr (False, stateValue, node, [])"
  by (auto simp: tryExpandingChildrenCapacityAssumeFull_def tryExpanding_begin_def STATE_defs)

lemma tryExpanding_cas_fails:
  "stateValue = STATE_EXPANDED0 \<or> stateValue = STATE_EXPANDED1 \<Longrightarrow> state node \<noteq> stateValue \<Longrightarrow>
     tryExpandingChildrenCapacityAssumeFull K node stateValue = Inr (False, state node, node, [])"
  by (auto simp: tryExpandingChildrenCapacityAssumeFull_def tryExpanding_begin_def STATE_defs
      state_compare_exchange_strong_def)

lemma tryExpanding_success:
  assumes full: "allSlotsFull (snd (getChildren K node stateValue)) (fst (getChildren K node stateValue))"
    and res: "tryExpandingChildrenCapacityAssumeFull K node stateValue = Inr (True, sv', node', trace)"
  shows "\<exists>old new.
      fst (getChildren K node stateValue) = Some old \<and> take (length old) new = old \<and>
      (stateValue = STATE_EXPANDED0 \<and> state node = STATE_EXPANDED0 \<and> length new = CHILDREN1SIZE K \<and>
         trace = [node\<lparr>state := STATE_GROWING1\<rparr>,
                  node\<lparr>state := STATE_GROWING1, children1 := Some new\<rparr>,
                  node\<lparr>state := STATE_EXPANDED1, children1 := Some new\<rparr>] \<and>
         sv' = STATE_EXPANDED1
       \<or> stateValue = STATE_EXPANDED1 \<and> state node = STATE_EXPANDED1 \<and> length new = CHILDREN2SIZE K \<and>
         trace = [node\<lparr>state := STATE_GROWING2\<rparr>,
                  node\<lparr>state := STATE_GROWING2, children2 := Some new\<rparr>,
                  node\<lparr>state := STATE_EXPANDED2, children2 := Some new\<rparr>] \<and>
         sv' = STATE_EXPANDED2) \<and>
      node' = last trace"
proof -
  from res obtain sv1 n1 sv2 tr where
    b: "tryExpanding_begin node stateValue = Inr (True, sv1, n1)"
    and f: "tryExpanding_finish K n1 sv1 = Inr (sv2, tr)"
    and out: "sv' = sv2" "node' = last tr" "trace = n1 # tr"
    by (auto simp: tryExpandingChildrenCapacityAssumeFull_def split: sum.splits if_splits prod.splits)
  from b consider
    (one) "stateValue = STATE_EXPANDED0" "state node = STATE_EXPANDED0" "sv1 = STATE_GROWING1"
      "n1 = node\<lparr>state := STATE_GROWING1\<rparr>"
  | (two) "stateValue = STATE_EXPANDED1" "state node = STATE_EXPANDED1" "sv1 = STATE_GROWING2"
      "n1 = node\<lparr>state := STATE_GROWING2\<rparr>"
    by (auto simp: tryExpanding_begin_def state_compare_exchange_strong_def split: if_splits)
  then show ?thesis
  proof cases
    case one
    from full one obtain old where old: "children0 node = Some old" "length old = CHILDREN0SIZE K"
      by (auto simp: getChildren_def allSlotsFull_def STATE_defs split: option.splits)
    from f one old obtain new where
      g: "growInto K (CHILDREN0SIZE K) (CHILDREN1SIZE K) (Some old) = Inr new"
      and tr: "tr = [n1\<lparr>children1 := Some new\<rparr>, n1\<lparr>children1 := Some new, state := STATE_EXPANDED1\<rparr>]"
      and sv2: "sv2 = STATE_EXPANDED1"
      by (auto simp: tryExpanding_finish_def Let_def split: sum.splits if_splits)
    from growInto_take [OF g old(2)] have "take (length old) new = old" "length new = CHILDREN1SIZE K"
      by simp_all
    moreover have "fst (getChildren K node stateValue) = Some old"
      using one old by (simp add: getChildren_def STATE_defs)
    ultimately show ?thesis using one tr sv2 out by auto
  next
    case two
    from full two obtain old where old: "children1 node = Some old" "length old = CHILDREN1SIZE K"
      by (auto simp: getChildren_def allSlotsFull_def STATE_defs split: option.splits)
    from f two old obtain new where
      g: "growInto K (CHILDREN1SIZE K) (CHILDREN2SIZE K) (Some old) = Inr new"
      and tr: "tr = [n1\<lparr>children2 := Some new\<rparr>, n1\<lparr>children2 := Some new, state := STATE_EXPANDED2\<rparr>]"
      and sv2: "sv2 = STATE_EXPANDED2"
      by (auto simp: tryExpanding_finish_def Let_def STATE_defs split: sum.splits if_splits)
    from growInto_take [OF g old(2)] have "take (length old) new = old" "length new = CHILDREN2SIZE K"
      by simp_all
    moreover have "fst (getChildren K node stateValue) = Some old"
      using two old by (simp add: getChildren_def STATE_defs)
    ultimately show ?thesis using two tr sv2 out by auto
  qed
qed

lemma tryExpanding_total:
  assumes full: "allSlotsFull (snd (getChildren K node stateValue)) (fst (getChildren K node stateValue))"
    and sizes: "CHILDREN0SIZE K \<le> CHILDREN1SIZE K" "CHILDREN1SIZE K \<le> CHILDREN2SIZE K"
    and fresh: "children1 node = None \<or> stateValue = STATE_EXPANDED1" "children2 node = None"
    and obs: "stateValue = STATE_EXPANDED0 \<or> stateValue = STATE_EXPANDED1" "state node = stateValue"
  shows "\<exists>sv' node' trace. tryExpandingChildrenCapacityAssumeFull K node stateValue = Inr (True, sv', node', trace)"
proof -
  from obs(1) show ?thesis
  proof
    assume e0: "stateValue = STATE_EXPANDED0"
    with full have a: "allSlotsFull (CHILDREN0SIZE K) (children0 node)"
      by (simp add: getChildren_def STATE_defs)
    from growInto_succeeds [OF a sizes(1)] obtain new where
      "growInto K (CHILDREN0SIZE K) (CHILDREN1SIZE K) (children0 node) = Inr new" by blast
    then show ?thesis using e0 obs(2) fresh
      by (simp add: tryExpandingChildrenCapacityAssumeFull_def tryExpanding_begin_def
          tryExpanding_finish_def state_compare_exchange_strong_def Let_def STATE_defs)
  next
    assume e1: "stateValue = STATE_EXPANDED1"
    with full have a: "allSlotsFull (CHILDREN1SIZE K) (children1 node)"
      by (simp add: getChildren_def STATE_defs)
    from growInto_succeeds [OF a sizes(2)] obtain new where
      "growInto K (CHILDREN1SIZE K) (CHILDREN2SIZE K) (children1 node) = Inr new" by blast
    then show ?thesis using e1 obs(2) fresh
      by (simp add: tryExpandingChildrenCapacityAssumeFull_def tryExpanding_begin_def
          tryExpanding_finish_def state_compare_exchange_strong_def Let_def STATE_defs)
  qed
qed

text \<open>
  C4. Under the precondition that every slot of the array in use is occupied,
  \<open>tryExpandingChildrenCapacityAssumeFull\<close> returns false (and writes nothing) when the
  observed state is \<open>GROWING1\<close> or \<open>GROWING2\<close>, and when its compare-exchange on the state
  fails because the node's state is no longer the observed one. When it returns true, the
  node passes through three contents in order: the state set to \<open>GROWING\<close> by the exchange;
  then the larger array in place, every old slot (child pointer, edge visits, move) copied
  to the same index, with the state still \<open>GROWING\<close>; only then the state stored as
  \<open>EXPANDED1\<close> (resp. \<open>EXPANDED2\<close>).
\<close>

theorem tryExpandingChildrenCapacityAssumeFull_grows:
  assumes "allSlotsFull (snd (getChildren K node stateValue)) (fst (getChildren K node stateValue))"
  shows "(stateValue = STATE_GROWING1 \<or> stateValue = STATE_GROWING2 \<longrightarrow>
            tryExpandingChildrenCapacityAssumeFull K node stateValue
              = Inr (False, stateValue, node, []))
       \<and> ((stateValue = STATE_EXPANDED0 \<or> stateValue = STATE_EXPANDED1) \<and> state node \<noteq> stateValue \<longrightarrow>
            tryExpandingChildrenCapacityAssumeFull K node stateValue
              = Inr (False, state node, node, []))
       \<and> (\<forall>sv' node' trace.
            tryExpandingChildrenCapacityAssumeFull K node stateValue = Inr (True, sv', node', trace) \<longrightarrow>
            (\<exists>old new.
               fst (getChildren K node stateValue) = Some old \<and> take (length old) new = old \<and>
               (stateValue = STATE_EXPANDED0 \<and> state node = STATE_EXPANDED0 \<and>
                  length new = CHILDREN1SIZE K \<and>
                  trace = [node\<lparr>state := STATE_GROWING1\<rparr>,
                           node\<lparr>state := STATE_GROWING1, children1 := Some new\<rparr>,
                           node\<lparr>state := STATE_EXPANDED1, children1 := Some new\<rparr>] \<and>
                  sv' = STATE_EXPANDED1
                \<or> stateValue = STATE_EXPANDED1 \<and> state node = STATE_EXPANDED1 \<and>
                  length new = CHILDREN2SIZE K \<and>
                  trace = [node\<lparr>state := STATE_GROWING2\<rparr>,
                           node\<lparr>state := STATE_GROWING2, children2 := Some new\<rparr>,
                           node\<lparr>state := STATE_EXPANDED2, children2 := Some new\<rparr>] \<and>
                  sv' = STATE_EXPANDED2) \<and>
               node' = last trace))"
  using tryExpanding_growing [of stateValue K node] tryExpanding_cas_fails [of stateValue node K]
    tryExpanding_success [OF assms]
  by blast




theorem tryExpandingChildrenCapacityAssumeFull_grows_witness:
  "allSlotsFull (snd (getChildren example_constants example_node 2))
      (fst (getChildren example_constants example_node 2))
   \<and> tryExpandingChildrenCapacityAssumeFull example_constants example_node 3
       = Inr (False, 3, example_node, [])
   \<and> tryExpandingChildrenCapacityAssumeFull example_constants (example_node\<lparr>state := 3\<rparr>) 2
       = Inr (False, 3, example_node\<lparr>state := 3\<rparr>, [])
   \<and> (\<exists>new. take 2 new = [\<lparr>data = Some 5, edgeVisits = 3, moveLoc = 7\<rparr>,
                            \<lparr>data = Some 6, edgeVisits = 4, moveLoc = 8\<rparr>]
        \<and> tryExpandingChildrenCapacityAssumeFull example_constants example_node 2
           = Inr (True, 4, example_node\<lparr>state := 4, children1 := Some new\<rparr>,
                  [example_node\<lparr>state := 3\<rparr>,
                   example_node\<lparr>state := 3, children1 := Some new\<rparr>,
                   example_node\<lparr>state := 4, children1 := Some new\<rparr>]))"
proof -
  have full2: "allSlotsFull (snd (getChildren example_constants example_node 2))
      (fst (getChildren example_constants example_node 2))"
    by (simp add: getChildren_def allSlotsFull_def example_constants_def example_node_def STATE_defs)
  have full3: "allSlotsFull (snd (getChildren example_constants example_node 3))
      (fst (getChildren example_constants example_node 3))"
    by (simp add: getChildren_def allSlotsFull_def example_constants_def example_node_def STATE_defs)
  have full2': "allSlotsFull (snd (getChildren example_constants (example_node\<lparr>state := 3\<rparr>) 2))
      (fst (getChildren example_constants (example_node\<lparr>state := 3\<rparr>) 2))"
    by (simp add: getChildren_def allSlotsFull_def example_constants_def example_node_def STATE_defs)
  have run: "\<exists>sv' node' trace.
      tryExpandingChildrenCapacityAssumeFull example_constants example_node 2
        = Inr (True, sv', node', trace)"
    by (rule tryExpanding_total)
      (simp_all add: getChildren_def allSlotsFull_def example_constants_def example_node_def STATE_defs)
  have a: "tryExpandingChildrenCapacityAssumeFull example_constants example_node 3
       = Inr (False, 3, example_node, [])"
    using tryExpandingChildrenCapacityAssumeFull_grows [OF full3] by (simp add: STATE_defs)
  have b: "tryExpandingChildrenCapacityAssumeFull example_constants (example_node\<lparr>state := 3\<rparr>) 2
       = Inr (False, 3, example_node\<lparr>state := 3\<rparr>, [])"
    using tryExpandingChildrenCapacityAssumeFull_grows [OF full2'] by (simp add: STATE_defs)
  from run obtain sv' node' trace where
    r: "tryExpandingChildrenCapacityAssumeFull example_constants example_node 2
        = Inr (True, sv', node', trace)" by blast
  have c: "\<exists>new. take 2 new = [\<lparr>data = Some 5, edgeVisits = 3, moveLoc = 7\<rparr>,
                            \<lparr>data = Some 6, edgeVisits = 4, moveLoc = 8\<rparr>]
        \<and> tryExpandingChildrenCapacityAssumeFull example_constants example_node 2
           = Inr (True, 4, example_node\<lparr>state := 4, children1 := Some new\<rparr>,
                  [example_node\<lparr>state := 3\<rparr>,
                   example_node\<lparr>state := 3, children1 := Some new\<rparr>,
                   example_node\<lparr>state := 4, children1 := Some new\<rparr>])"
  proof -
    have st: "state example_node = STATE_EXPANDED0" "(2::int) \<noteq> STATE_EXPANDED1"
      and ch: "fst (getChildren example_constants example_node 2)
         = Some [\<lparr>data = Some 5, edgeVisits = 3, moveLoc = 7\<rparr>,
                 \<lparr>data = Some 6, edgeVisits = 4, moveLoc = 8\<rparr>]"
      by (simp_all add: example_node_def STATE_defs getChildren_def)
    from tryExpandingChildrenCapacityAssumeFull_grows [OF full2] r obtain old new where
      o: "fst (getChildren example_constants example_node 2) = Some old"
        "take (length old) new = old"
      and d: "trace = [example_node\<lparr>state := STATE_GROWING1\<rparr>,
                  example_node\<lparr>state := STATE_GROWING1, children1 := Some new\<rparr>,
                  example_node\<lparr>state := STATE_EXPANDED1, children1 := Some new\<rparr>]"
        "sv' = STATE_EXPANDED1" "node' = last trace"
      using st by blast
    from o ch have "take 2 new = [\<lparr>data = Some 5, edgeVisits = 3, moveLoc = 7\<rparr>,
                            \<lparr>data = Some 6, edgeVisits = 4, moveLoc = 8\<rparr>]"
      by (auto simp: numeral_2_eq_2)
    then show ?thesis using r d by (auto simp: STATE_defs)
  qed
  from full2 a b c show ?thesis by blast
qed

subsection \<open>Monotone node state\<close>

lemma holds_state_initial: "holds_state (initial node)"
  by (simp add: holds_state_def holds_def initial_def)

lemma setChildren_state [simp]: "state (setChildren node v arr) = state node"
  by (simp add: setChildren_def)

lemma won_cases: "won p \<longleftrightarrow> p = Evaluating_won \<or> (\<exists>g. p = Growing_won g)"
  by (cases p) simp_all

lemma holds_upd_idle:
  assumes "holds st ps" "\<not> won p"
  shows "holds st (ps(t := p))"
  using assms by (cases p) (auto simp: holds_def split: if_splits)

lemma holds_no_winner:
  assumes "holds st ps" "st \<noteq> STATE_EVALUATING" "st \<noteq> STATE_GROWING1" "st \<noteq> STATE_GROWING2"
  shows "\<not> won (ps t)"
  using assms unfolding holds_def won_cases by metis

lemma holds_upd_winner:
  assumes "\<And>u. \<not> won (ps u)"
    and "p = Evaluating_won \<and> st' = STATE_EVALUATING
         \<or> p = Growing_won st' \<and> (st' = STATE_GROWING1 \<or> st' = STATE_GROWING2)"
  shows "holds st' (ps(t := p))"
  using assms by (auto simp: holds_def won_cases split: if_splits)

lemma holds_release:
  assumes "holds st ps" "won (ps t)" "\<not> won p"
  shows "holds st' (ps(t := p))"
proof -
  have "\<And>u. u \<noteq> t \<Longrightarrow> \<not> won (ps u)"
    using assms(1,2) unfolding holds_def by blast
  then show ?thesis
    using assms(3) by (cases p) (auto simp: holds_def won_cases split: if_splits)
qed


lemma step_Load:
  assumes "step K c (t, Load) = Some (c', w)" "holds_state c"
  shows "holds_state c' \<and> advances c c' w"
  using assms
  by (auto simp: holds_state_def advances_def split: pc.splits intro!: holds_upd_idle)

lemma step_Leave:
  assumes "step K c (t, Leave) = Some (c', w)" "holds_state c"
  shows "holds_state c' \<and> advances c c' w"
  using assms
  by (auto simp: holds_state_def advances_def split: pc.splits intro!: holds_upd_idle)

lemma step_Install:
  assumes "step K c (t, Install_child idx child mv) = Some (c', w)" "holds_state c"
  shows "holds_state c' \<and> advances c c' w"
proof -
  from assms(1) obtain v where v: "pcs c t = Loaded v"
    by (auto split: pc.splits)
  with assms(1) have "state (shared c') = state (shared c)" "w = None"
    "pcs c' = pcs c \<or> pcs c' = (pcs c)(t := Idle)"
    by (auto split: if_splits option.splits)
  then show ?thesis using assms(2)
    by (auto simp: holds_state_def advances_def intro!: holds_upd_idle)
qed

lemma step_Cas:
  assumes s: "step K c (t, Cas_evaluating) = Some (c', w)" and h: "holds_state c"
  shows "holds_state c' \<and> advances c c' w"
proof (cases "state (shared c) = STATE_UNEVALUATED")
  case True
  then have nw: "\<And>u. \<not> won (pcs c u)"
    using holds_no_winner [OF h [unfolded holds_state_def]] by (simp add: STATE_defs)
  from s True have c': "state (shared c') = STATE_EVALUATING" "pcs c' = (pcs c)(t := Evaluating_won)"
    and w: "w = Some (state (shared c), STATE_EVALUATING)"
    by (auto simp: state_compare_exchange_strong_def split: pc.splits if_splits)
  have "holds_state c'"
    unfolding holds_state_def c' using nw by (intro holds_upd_winner) simp_all
  then show ?thesis using w True c' by (simp add: STATE_defs advances_def)
next
  case False
  with s have "state (shared c') = state (shared c)" "pcs c' = (pcs c)(t := Idle)" "w = None"
    by (auto simp: state_compare_exchange_strong_def split: pc.splits if_splits)
  then show ?thesis using h by (auto simp: holds_state_def advances_def intro!: holds_upd_idle)
qed

lemma step_Store:
  assumes s: "step K c (t, Store_expanded0) = Some (c', w)" and h: "holds_state c"
  shows "holds_state c' \<and> advances c c' w"
proof -
  from s have p: "pcs c t = Evaluating_won" by (auto split: pc.splits)
  with h have st: "state (shared c) = STATE_EVALUATING"
    by (auto simp: holds_state_def holds_def)
  from s p have c': "state (shared c') = STATE_EXPANDED0" "pcs c' = (pcs c)(t := Idle)"
    and w: "w = Some (state (shared c), STATE_EXPANDED0)"
    by (auto simp: initializeChildren_def split: if_splits)
  have "holds_state c'"
    unfolding holds_state_def c' using h p
    by (intro holds_release [where st = "state (shared c)"]) (simp_all add: holds_state_def)
  then show ?thesis using w st c' by (simp add: STATE_defs advances_def)
qed

lemma tryExpanding_begin_cases:
  assumes "tryExpanding_begin node v = Inr (suc, sv, node')"
  shows "\<not> suc \<and> node' = node
       \<or> suc \<and> state node = STATE_EXPANDED0 \<and> sv = STATE_GROWING1 \<and> node' = node\<lparr>state := STATE_GROWING1\<rparr>
       \<or> suc \<and> state node = STATE_EXPANDED1 \<and> sv = STATE_GROWING2 \<and> node' = node\<lparr>state := STATE_GROWING2\<rparr>"
  using assms
  by (auto simp: tryExpanding_begin_def state_compare_exchange_strong_def split: if_splits)

lemma step_Grow_begin:
  assumes s: "step K c (t, Grow_begin) = Some (c', w)" and h: "holds_state c"
  shows "holds_state c' \<and> advances c c' w"
proof -
  from s obtain v suc sv node' where v: "pcs c t = Loaded v"
    and b: "tryExpanding_begin (shared c) v = Inr (suc, sv, node')"
    by (auto split: pc.splits if_splits sum.splits)
  from s v b have c': "shared c' = node'"
    "pcs c' = (pcs c)(t := if suc then Growing_won sv else Loaded sv)"
    and w: "w = (if suc then Some (state (shared c), state node') else None)"
    by (auto split: if_splits)
  from tryExpanding_begin_cases [OF b] show ?thesis
  proof (elim disjE conjE)
    assume "\<not> suc" "node' = shared c"
    then show ?thesis using c' w h
      by (auto simp: holds_state_def advances_def intro!: holds_upd_idle)
  next
    assume a: "suc" "state (shared c) = STATE_EXPANDED0" "sv = STATE_GROWING1"
      "node' = (shared c)\<lparr>state := STATE_GROWING1\<rparr>"
    then have nw: "\<And>u. \<not> won (pcs c u)"
      using holds_no_winner [OF h [unfolded holds_state_def]] by (simp add: STATE_defs)
    have "holds_state c'"
      unfolding holds_state_def c' using nw a by (intro holds_upd_winner) simp_all
    then show ?thesis using a c' w by (simp add: advances_def STATE_defs)
  next
    assume a: "suc" "state (shared c) = STATE_EXPANDED1" "sv = STATE_GROWING2"
      "node' = (shared c)\<lparr>state := STATE_GROWING2\<rparr>"
    then have nw: "\<And>u. \<not> won (pcs c u)"
      using holds_no_winner [OF h [unfolded holds_state_def]] by (simp add: STATE_defs)
    have "holds_state c'"
      unfolding holds_state_def c' using nw a by (intro holds_upd_winner) simp_all
    then show ?thesis using a c' w by (simp add: advances_def STATE_defs)
  qed
qed

lemma tryExpanding_finish_cases:
  assumes "tryExpanding_finish K node g = Inr (sv, trace)"
  shows "state (last trace) = sv \<and>
    (g = STATE_GROWING1 \<and> sv = STATE_EXPANDED1 \<or> g \<noteq> STATE_GROWING1 \<and> sv = STATE_EXPANDED2)"
  using assms
  by (auto simp: tryExpanding_finish_def Let_def split: if_splits sum.splits)

lemma step_Grow_finish:
  assumes s: "step K c (t, Grow_finish) = Some (c', w)" and h: "holds_state c"
  shows "holds_state c' \<and> advances c c' w"
proof -
  from s obtain g sv trace where p: "pcs c t = Growing_won g"
    and f: "tryExpanding_finish K (shared c) g = Inr (sv, trace)"
    by (auto split: pc.splits sum.splits)
  from h p have st: "state (shared c) = g" "g = STATE_GROWING1 \<or> g = STATE_GROWING2"
    by (auto simp: holds_state_def holds_def)
  from s p f have c': "shared c' = last trace" "pcs c' = (pcs c)(t := Loaded sv)"
    and w: "w = Some (state (shared c), sv)"
    by auto
  have "holds_state c'"
    unfolding holds_state_def c' using h p
    by (intro holds_release [where st = "state (shared c)"]) (simp_all add: holds_state_def)
  then show ?thesis
    using tryExpanding_finish_cases [OF f] st c' w by (auto simp: advances_def STATE_defs)
qed

lemma step_preserves:
  assumes "step K c (t, a) = Some (c', w)" "holds_state c"
  shows "holds_state c' \<and> advances c c' w"
  using assms
  by (cases a)
    (blast dest: step_Load step_Leave step_Install step_Cas step_Store step_Grow_begin
      step_Grow_finish)+

lemma run_holds_state:
  "run K c sched = Some c' \<Longrightarrow> holds_state c \<Longrightarrow> holds_state c'"
proof (induction sched arbitrary: c)
  case Nil
  then show ?case by simp
next
  case (Cons a rest)
  obtain t act where a: "a = (t, act)" by (cases a)
  from Cons.prems(1) obtain c1 w where s: "step K c (t, act) = Some (c1, w)"
    and r: "run K c1 rest = Some c'"
    unfolding a by (auto split: option.splits)
  from step_preserves [OF s Cons.prems(2)] Cons.IH [OF r] show ?case by blast
qed

lemma run_state_mono:
  "run K c sched = Some c' \<Longrightarrow> holds_state c \<Longrightarrow> state (shared c) \<le> state (shared c')"
proof (induction sched arbitrary: c)
  case Nil
  then show ?case by simp
next
  case (Cons a rest)
  obtain t act where a: "a = (t, act)" by (cases a)
  from Cons.prems(1) obtain c1 w where s: "step K c (t, act) = Some (c1, w)"
    and r: "run K c1 rest = Some c'"
    unfolding a by (auto split: option.splits)
  from step_preserves [OF s Cons.prems(2)]
  have h1: "holds_state c1" and adv: "advances c c1 w" by simp_all
  from adv have "state (shared c) \<le> state (shared c1)"
    by (auto simp: advances_def split: option.splits)
  with Cons.IH [OF r h1] show ?case by simp
qed


text \<open>
  C3. The state of a node only advances: in every run of any number of workers from a node
  on which no worker is active, each store or successful compare-exchange on \<open>state\<close>
  (in the playout descent or in the growth of the child array) replaces the current value by
  a strictly greater one, every other step leaves \<open>state\<close> unchanged, and the state never
  falls below an earlier value.
\<close>

theorem state_only_advances:
  assumes "run K (initial node) sched = Some c" and "step K c (t, a) = Some (c', w)"
  shows "(\<forall>old new. w = Some (old, new) \<longrightarrow>
            old = state (shared c) \<and> new = state (shared c') \<and> old < new)
       \<and> (w = None \<longrightarrow> state (shared c') = state (shared c))
       \<and> state node \<le> state (shared c) \<and> state (shared c) \<le> state (shared c')"
proof -
  have h: "holds_state c"
    using run_holds_state [OF assms(1) holds_state_initial] .
  have m: "state node \<le> state (shared c)"
    using run_state_mono [OF assms(1) holds_state_initial] by (simp add: initial_def)
  from step_preserves [OF assms(2) h] have "advances c c' w" by simp
  then show ?thesis using m by (auto simp: advances_def split: option.splits)
qed

lemma example_run:
  "\<exists>c. run example_constants (initial fresh_node) example_schedule = Some c
     \<and> state (shared c) = STATE_GROWING1
     \<and> (\<exists>c'. step example_constants c (1, Grow_finish)
               = Some (c', Some (STATE_GROWING1, STATE_EXPANDED1)))"
  by (simp add: example_schedule_def initial_def fresh_node_def example_constants_def
      state_compare_exchange_strong_def initializeChildren_def getChildren_def setChildren_def
      allSlotsFull_def tryExpanding_begin_def tryExpanding_finish_def growInto_def
      newSearchChildPointer_def STATE_defs Let_def upt_rec numeral_2_eq_2 numeral_3_eq_3)

theorem state_only_advances_witness:
  "\<exists>c c'. run example_constants (initial fresh_node) example_schedule = Some c
     \<and> step example_constants c (1, Grow_finish)
         = Some (c', Some (STATE_GROWING1, STATE_EXPANDED1))
     \<and> state (shared c) = STATE_GROWING1 \<and> state (shared c') = STATE_EXPANDED1
     \<and> STATE_GROWING1 < STATE_EXPANDED1"
proof -
  from example_run obtain c c' where
    r: "run example_constants (initial fresh_node) example_schedule = Some c"
    and s: "step example_constants c (1, Grow_finish)
         = Some (c', Some (STATE_GROWING1, STATE_EXPANDED1))"
    by blast
  from state_only_advances [OF r s]
  have "STATE_GROWING1 = state (shared c)" "STATE_EXPANDED1 = state (shared c')"
    "STATE_GROWING1 < STATE_EXPANDED1"
    by simp_all
  with r s show ?thesis by metis
qed

subsection \<open>Catching up edge visits\<close>

lemma compexweakLoop_true:
  "compexweakLoop childVisits env cell expected = Returns (True, cell', env', w) \<Longrightarrow>
     \<exists>pre. env = pre @ env' \<and> pre \<noteq> [] \<and> cellAfter pre cell < childVisits
       \<and> cell' = cellAfter pre cell + 1
       \<and> w = Some (cellAfter pre cell, cellAfter pre cell + 1)"
proof (induction childVisits env cell expected rule: compexweakLoop.induct)
  case (1 childVisits env cell expected)
  from "1.prems" have lt: "expected < childVisits" by (simp split: if_splits)
  show ?case
  proof (cases env)
    case Nil
    with "1.prems" show ?thesis by (simp split: if_splits)
  next
    case (Cons e rest)
    obtain interference spurious where e: "e = (interference, spurious)" by (cases e)
    define cell1 where "cell1 = (case interference of None \<Rightarrow> cell | Some v \<Rightarrow> v)"
    have step: "cellAfter (e # pre) cell = cellAfter pre cell1" for pre
      by (simp add: e cell1_def)
    show ?thesis
    proof (cases "cell1 = expected \<and> \<not> spurious")
      case True
      with "1.prems" Cons e lt have r: "env' = rest" "cell' = expected + 1"
        "w = Some (cell1, expected + 1)"
        by (auto simp: cell1_def Let_def)
      have "cellAfter [e] cell = cell1" by (simp add: e cell1_def)
      with r True lt Cons show ?thesis by (intro exI [of _ "[e]"]) simp
    next
      case False
      with "1.prems" Cons e lt
      have "compexweakLoop childVisits rest cell1 cell1 = Returns (True, cell', env', w)"
        by (simp add: cell1_def Let_def split: if_splits)
      moreover have "\<not> childVisits \<le> expected" using lt by simp
      ultimately obtain pre where p: "rest = pre @ env'" "pre \<noteq> []"
        "cellAfter pre cell1 < childVisits" "cell' = cellAfter pre cell1 + 1"
        "w = Some (cellAfter pre cell1, cellAfter pre cell1 + 1)"
        using "1.IH" [OF _ Cons e [symmetric] cell1_def] False by blast
      with Cons show ?thesis by (intro exI [of _ "e # pre"]) (simp add: step)
    qed
  qed
qed

lemma compexweakLoop_false:
  "compexweakLoop childVisits env cell expected = Returns (False, cell', env', w) \<Longrightarrow>
     w = None \<and> (\<exists>pre. env = pre @ env' \<and> cell' = cellAfter pre cell)"
proof (induction childVisits env cell expected rule: compexweakLoop.induct)
  case (1 childVisits env cell expected)
  show ?case
  proof (cases "expected \<ge> childVisits")
    case True
    with "1.prems" have "w = None" "env' = env" "cell' = cell" by simp_all
    then show ?thesis by (intro conjI exI [of _ "[]"]) simp_all
  next
    case ge: False
    show ?thesis
    proof (cases env)
      case Nil
      with "1.prems" ge show ?thesis by simp
    next
      case (Cons e rest)
      obtain interference spurious where e: "e = (interference, spurious)" by (cases e)
      define cell1 where "cell1 = (case interference of None \<Rightarrow> cell | Some v \<Rightarrow> v)"
      have step: "cellAfter (e # pre) cell = cellAfter pre cell1" for pre
        by (simp add: e cell1_def)
      show ?thesis
      proof (cases "cell1 = expected \<and> \<not> spurious")
        case True
        with "1.prems" Cons e ge show ?thesis by (auto simp: cell1_def Let_def)
      next
        case False
        with "1.prems" Cons e ge
        have "compexweakLoop childVisits rest cell1 cell1 = Returns (False, cell', env', w)"
          by (simp add: cell1_def Let_def split: if_splits)
        then obtain pre where "w = None" "rest = pre @ env'" "cell' = cellAfter pre cell1"
          using "1.IH" [OF ge Cons e [symmetric] cell1_def] False by blast
        with Cons show ?thesis by (intro conjI exI [of _ "e # pre"]) (simp_all add: step)
      qed
    qed
  qed
qed

lemma compexweakLoop_no_failure:
  "compexweakLoop childVisits env cell expected \<noteq> Fails e"
proof (induction childVisits env cell expected rule: compexweakLoop.induct)
  case (1 childVisits env cell expected)
  show ?case
  proof (cases "expected \<ge> childVisits")
    case True
    then show ?thesis by simp
  next
    case ge: False
    show ?thesis
    proof (cases env)
      case Nil
      with ge show ?thesis by simp
    next
      case (Cons x env')
      obtain interference spurious where x: "x = (interference, spurious)" by (cases x)
      define cell1 where "cell1 = (case interference of None \<Rightarrow> cell | Some v \<Rightarrow> v)"
      show ?thesis
      proof (cases "cell1 = expected \<and> \<not> spurious")
        case True
        with Cons x ge show ?thesis by (auto simp: cell1_def Let_def)
      next
        case False
        then show ?thesis
          using "1.IH" [OF ge Cons x [symmetric] cell1_def] Cons x ge
          by (auto simp: cell1_def Let_def)
      qed
    qed
  qed
qed

lemma compexweakLoop_quiet:
  "expected < childVisits \<Longrightarrow>
     compexweakLoop childVisits ((None, False) # env) expected expected
       = Returns (True, expected + 1, env, Some (expected, expected + 1))"
  by simp

lemma compexweakLoop_behind:
  "expected \<ge> childVisits \<Longrightarrow>
     compexweakLoop childVisits env cell expected = Returns (False, cell, env, None)"
  by simp

text \<open>An attempt was made whenever the loop starts behind: an entry of the environment is met.\<close>

lemma compexweakLoop_consumes:
  "compexweakLoop childVisits env cell expected = Returns (ret, cell', env', w) \<Longrightarrow>
     expected < childVisits \<Longrightarrow> length env' < length env"
proof -
  assume r: "compexweakLoop childVisits env cell expected = Returns (ret, cell', env', w)"
    and lt: "expected < childVisits"
  have len: "length e' \<le> length e"
    if "compexweakLoop cv e c x = Returns (b, c', e', u)" for cv e c x b c' e' u
  proof (cases b)
    case True
    with compexweakLoop_true [of cv e c x c' e' u] that show ?thesis by auto
  next
    case False
    with compexweakLoop_false [of cv e c x c' e' u] that show ?thesis by auto
  qed
  show ?thesis
  proof (cases env)
    case Nil
    with r lt show ?thesis by simp
  next
    case (Cons e rest)
    obtain interference spurious where e: "e = (interference, spurious)" by (cases e)
    define cell1 where "cell1 = (case interference of None \<Rightarrow> cell | Some v \<Rightarrow> v)"
    show ?thesis
    proof (cases "cell1 = expected \<and> \<not> spurious")
      case True
      with r Cons e lt show ?thesis by (auto simp: cell1_def Let_def)
    next
      case False
      with r Cons e lt
      have "compexweakLoop childVisits rest cell1 cell1 = Returns (ret, cell', env', w)"
        by (simp add: cell1_def Let_def split: if_splits)
      from len [OF this] Cons show ?thesis by simp
    qed
  qed
qed

declare compexweakLoop.simps [simp del]

text \<open>Storing into a slot the count it holds leaves the node as it is.\<close>

lemma setChildren_same:
  assumes "fst (getChildren K node nodeState) = Some children"
  shows "setChildren node nodeState
           (children[i := (children ! i)\<lparr>edgeVisits := edgeVisits (children ! i)\<rparr>]) = node"
  using assms by (auto simp: getChildren_def setChildren_def split: if_splits)

lemma getChildren_setChildren:
  assumes "fst (getChildren K node nodeState) = Some children"
  shows "fst (getChildren K (setChildren node nodeState arr) nodeState) = Some arr"
  using assms by (auto simp: getChildren_def setChildren_def split: if_splits)

text \<open>
  C5. \<open>maybeCatchUpEdgeVisits\<close> returns false, leaving the parent node and the
  environment as they are, whenever the edge's visit count is at least the child's visit
  count; when the edge is behind and the leak probability \<open>p\<close> is positive it returns
  false in the same way if \<open>nextBool(p)\<close> comes up true, which for a generator of uniform
  draws happens exactly when the draw is below \<open>p\<close>, so with probability \<open>p\<close>. Whenever it
  returns true it has met a non-empty part of the environment, and the edge's count in the
  parent node is one more than the count \<open>old\<close> that the other workers had left there,
  \<open>old\<close> being below the child's visits: this worker's one exchange replaced \<open>old\<close> by
  \<open>old + 1\<close>. Whenever it returns false the edge's count is what the other workers left:
  this worker has written nothing. With no interference it returns true at the first
  attempt. When it returns true the caller returns true (a finished playout) after updating
  the statistics and releasing the virtual loss, without descending into the child and
  without adding a further edge visit.
\<close>

theorem maybeCatchUpEdgeVisits_adds_one:
  assumes "fst (getChildren K node nodeState) = Some children"
    and "bestChildIdx < length children"
  shows "(edgeVisits (children ! bestChildIdx) \<ge> visits (stats child) \<longrightarrow>
            maybeCatchUpEdgeVisits K sp nextBool env rand node child nodeState bestChildIdx
              = Returns (False, rand, node, env, None))
       \<and> (graphSearchCatchUpLeakProb sp > 0
            \<and> edgeVisits (children ! bestChildIdx) < visits (stats child)
            \<and> fst (nextBool rand (graphSearchCatchUpLeakProb sp)) \<longrightarrow>
            maybeCatchUpEdgeVisits K sp nextBool env rand node child nodeState bestChildIdx
              = Returns (False, snd (nextBool rand (graphSearchCatchUpLeakProb sp)), node, env,
                         None))
       \<and> (graphSearchCatchUpLeakProb sp > 0
            \<and> edgeVisits (children ! bestChildIdx) < visits (stats child) \<longrightarrow>
            (\<forall>u g.
               (maybeCatchUpEdgeVisits K sp rand_nextBool env (u # g) node child nodeState
                    bestChildIdx
                  = Returns (False, g, node, env, None))
               \<longleftrightarrow> u < graphSearchCatchUpLeakProb sp))
       \<and> (\<forall>rand' node' env' w.
            maybeCatchUpEdgeVisits K sp nextBool env rand node child nodeState bestChildIdx
              = Returns (True, rand', node', env', w) \<longrightarrow>
            (\<exists>pre. env = pre @ env' \<and> pre \<noteq> []
               \<and> cellAfter pre (edgeVisits (children ! bestChildIdx)) < visits (stats child)
               \<and> node' = setChildren node nodeState
                            (children[bestChildIdx := (children ! bestChildIdx)
                               \<lparr>edgeVisits :=
                                  cellAfter pre (edgeVisits (children ! bestChildIdx)) + 1\<rparr>])
               \<and> fst (getChildren K node' nodeState)
                   = Some (children[bestChildIdx := (children ! bestChildIdx)
                               \<lparr>edgeVisits :=
                                  cellAfter pre (edgeVisits (children ! bestChildIdx)) + 1\<rparr>])
               \<and> w = Some (cellAfter pre (edgeVisits (children ! bestChildIdx)),
                           cellAfter pre (edgeVisits (children ! bestChildIdx)) + 1)))
       \<and> (\<forall>rand' node' env' w.
            maybeCatchUpEdgeVisits K sp nextBool env rand node child nodeState bestChildIdx
              = Returns (False, rand', node', env', w) \<longrightarrow>
            w = None
            \<and> (\<exists>pre. env = pre @ env'
                  \<and> node' = setChildren node nodeState
                               (children[bestChildIdx := (children ! bestChildIdx)
                                  \<lparr>edgeVisits :=
                                     cellAfter pre (edgeVisits (children ! bestChildIdx))\<rparr>])))
       \<and> (edgeVisits (children ! bestChildIdx) < visits (stats child)
            \<and> \<not> (graphSearchCatchUpLeakProb sp > 0
                   \<and> fst (nextBool rand (graphSearchCatchUpLeakProb sp))) \<longrightarrow>
            (\<exists>rand'.
              maybeCatchUpEdgeVisits K sp nextBool ((None, False) # env) rand node child
                  nodeState bestChildIdx
                = Returns (True, rand',
                    setChildren node nodeState
                      (children[bestChildIdx := (children ! bestChildIdx)
                         \<lparr>edgeVisits := edgeVisits (children ! bestChildIdx) + 1\<rparr>]),
                    env,
                    Some (edgeVisits (children ! bestChildIdx),
                          edgeVisits (children ! bestChildIdx) + 1))))
       \<and> (\<forall>rand' node' env' w isNewChild childFinished.
            maybeCatchUpEdgeVisits K sp nextBool env rand node child nodeState bestChildIdx
              = Returns (True, rand', node', env', w) \<longrightarrow>
            descendChosenChild K sp nextBool env rand node child nodeState bestChildIdx
                isNewChild childFinished
              = Returns (True, [UpdateStatsAfterPlayout, ReleaseVirtualLoss]))"
proof -
  define cv where "cv = visits (stats child)"
  define e0 where "e0 = edgeVisits (children ! bestChildIdx)"
  define p where "p = graphSearchCatchUpLeakProb sp"
  define store where
    "store v = setChildren node nodeState
                 (children[bestChildIdx := (children ! bestChildIdx)\<lparr>edgeVisits := v\<rparr>])" for v
  have same: "store e0 = node"
    unfolding store_def e0_def by (rule setChildren_same [OF assms(1)])
  have read: "fst (getChildren K (store v) nodeState)
      = Some (children[bestChildIdx := (children ! bestChildIdx)\<lparr>edgeVisits := v\<rparr>])" for v
    unfolding store_def by (rule getChildren_setChildren [OF assms(1)])
  have unf: "maybeCatchUpEdgeVisits K sp nb env rand node child nodeState bestChildIdx =
     (if (p > 0 \<and> e0 < cv) \<and> fst (nb rand p) then Returns (False, snd (nb rand p), node, env, None)
      else (case compexweakLoop cv env e0 e0 of
              OutOfFuel \<Rightarrow> OutOfFuel
            | Fails e \<Rightarrow> Fails e
            | Returns (ret, cell, env', w) \<Rightarrow>
                Returns (ret, if p > 0 \<and> e0 < cv then snd (nb rand p) else rand,
                         store cell, env', w)))"
    for nb :: "'x \<Rightarrow> real \<Rightarrow> bool \<times> 'x" and env rand
    unfolding maybeCatchUpEdgeVisits_def Let_def cv_def e0_def p_def store_def
    using assms by simp
  have c1: "maybeCatchUpEdgeVisits K sp nextBool env rand node child nodeState bestChildIdx
              = Returns (False, rand, node, env, None)" if "e0 \<ge> cv"
    using that by (simp add: unf compexweakLoop_behind same)
  have c2: "maybeCatchUpEdgeVisits K sp nextBool env rand node child nodeState bestChildIdx
              = Returns (False, snd (nextBool rand p), node, env, None)"
    if "p > 0 \<and> e0 < cv \<and> fst (nextBool rand p)"
    using that by (simp add: unf)
  have c3: "(maybeCatchUpEdgeVisits K sp rand_nextBool env (u # g) node child nodeState
                    bestChildIdx
                  = Returns (False, g, node, env, None))
               \<longleftrightarrow> u < p"
    if lk: "p > 0 \<and> e0 < cv" for u g
  proof (cases "u < p")
    case True
    with lk show ?thesis by (simp add: unf rand_nextBool_def)
  next
    case False
    have "maybeCatchUpEdgeVisits K sp rand_nextBool env (u # g) node child nodeState
                    bestChildIdx
                  \<noteq> Returns (False, g, node, env, None)"
    proof
      assume a: "maybeCatchUpEdgeVisits K sp rand_nextBool env (u # g) node child nodeState
                    bestChildIdx
                  = Returns (False, g, node, env, None)"
      with False obtain ret cell w where
        "compexweakLoop cv env e0 e0 = Returns (ret, cell, env, w)"
        by (auto simp: unf rand_nextBool_def split: outcome.splits)
      from compexweakLoop_consumes [OF this] lk show False by simp
    qed
    with False show ?thesis by simp
  qed
  have c4: "\<exists>pre. env = pre @ env' \<and> pre \<noteq> [] \<and> cellAfter pre e0 < cv
               \<and> node' = store (cellAfter pre e0 + 1)
               \<and> fst (getChildren K node' nodeState)
                   = Some (children[bestChildIdx := (children ! bestChildIdx)
                               \<lparr>edgeVisits := cellAfter pre e0 + 1\<rparr>])
               \<and> w = Some (cellAfter pre e0, cellAfter pre e0 + 1)"
    if r: "maybeCatchUpEdgeVisits K sp nextBool env rand node child nodeState bestChildIdx
              = Returns (True, rand', node', env', w)"
    for rand' node' env' w
  proof -
    from r obtain cell where l: "compexweakLoop cv env e0 e0 = Returns (True, cell, env', w)"
      and n: "node' = store cell"
      by (auto simp: unf split: if_splits outcome.splits)
    from compexweakLoop_true [OF l] obtain pre where
      "env = pre @ env'" "pre \<noteq> []" "cellAfter pre e0 < cv" "cell = cellAfter pre e0 + 1"
      "w = Some (cellAfter pre e0, cellAfter pre e0 + 1)"
      by blast
    with n read [of "cellAfter pre e0 + 1"] show ?thesis by (intro exI [of _ pre]) simp
  qed
  have c5: "w = None \<and> (\<exists>pre. env = pre @ env' \<and> node' = store (cellAfter pre e0))"
    if r: "maybeCatchUpEdgeVisits K sp nextBool env rand node child nodeState bestChildIdx
              = Returns (False, rand', node', env', w)"
    for rand' node' env' w
  proof (cases "(p > 0 \<and> e0 < cv) \<and> fst (nextBool rand p)")
    case True
    with r have "w = None" "env' = env" "node' = node" by (simp_all add: unf)
    with same show ?thesis by (intro conjI exI [of _ "[]"]) simp_all
  next
    case False
    with r obtain cell where l: "compexweakLoop cv env e0 e0 = Returns (False, cell, env', w)"
      and n: "node' = store cell"
      by (auto simp: unf split: if_splits outcome.splits)
    from compexweakLoop_false [OF l] n show ?thesis by blast
  qed
  have c6: "\<exists>rand'.
              maybeCatchUpEdgeVisits K sp nextBool ((None, False) # env) rand node child
                  nodeState bestChildIdx
                = Returns (True, rand', store (e0 + 1), env, Some (e0, e0 + 1))"
    if "e0 < cv \<and> \<not> (p > 0 \<and> fst (nextBool rand p))"
    using that by (simp add: unf compexweakLoop_quiet)
  have c7: "descendChosenChild K sp nextBool env rand node child nodeState bestChildIdx
                isNewChild childFinished
              = Returns (True, [UpdateStatsAfterPlayout, ReleaseVirtualLoss])"
    if "maybeCatchUpEdgeVisits K sp nextBool env rand node child nodeState bestChildIdx
              = Returns (True, rand', node', env', w)"
    for rand' node' env' w isNewChild childFinished
    using that by (simp add: descendChosenChild_def)
  show ?thesis
    unfolding cv_def [symmetric] e0_def [symmetric] p_def [symmetric] store_def [symmetric]
    apply (intro conjI allI impI)
          apply (erule c1)
         apply (erule c2)
        apply (erule c3)
       apply (erule c4)
      apply (drule c5, elim conjE, assumption)
     apply (drule c5, elim conjE, assumption)
    apply (erule c6)
    apply (erule c7)
    done
qed

theorem maybeCatchUpEdgeVisits_adds_one_witness:
  "fst (getChildren example_constants example_node 2)
     = Some [\<lparr>data = Some 5, edgeVisits = 3, moveLoc = 7\<rparr>,
             \<lparr>data = Some 6, edgeVisits = 4, moveLoc = 8\<rparr>]
   \<and> (0::nat) < length [\<lparr>data = Some 5, edgeVisits = 3, moveLoc = 7\<rparr>,
                         \<lparr>data = Some 6, edgeVisits = 4, moveLoc = 8\<rparr>]
   \<and> (\<exists>rand' node'.
        maybeCatchUpEdgeVisits example_constants example_params example_nextBool
          [(Some 5, False), (None, True), (None, False)] 0 example_node example_node 2 0
        = Returns (True, rand', node', [], Some (5, 6))
        \<and> fst (getChildren example_constants node' 2)
            = Some [\<lparr>data = Some 5, edgeVisits = 6, moveLoc = 7\<rparr>,
                    \<lparr>data = Some 6, edgeVisits = 4, moveLoc = 8\<rparr>])
   \<and> (\<exists>rand' node'.
        maybeCatchUpEdgeVisits example_constants example_params example_nextBool
          [(Some 9, False), (None, False)] 0 example_node example_node 2 0
        = Returns (False, rand', node', [(None, False)], None)
        \<and> fst (getChildren example_constants node' 2)
            = Some [\<lparr>data = Some 5, edgeVisits = 9, moveLoc = 7\<rparr>,
                    \<lparr>data = Some 6, edgeVisits = 4, moveLoc = 8\<rparr>])
   \<and> maybeCatchUpEdgeVisits example_constants
          (example_params\<lparr>graphSearchCatchUpLeakProb := 1 / 4\<rparr>) rand_nextBool
          [(None, False)] [1 / 8] example_node example_node 2 0
        = Returns (False, [], example_node, [(None, False)], None)
   \<and> (\<exists>rand' node'.
        maybeCatchUpEdgeVisits example_constants
          (example_params\<lparr>graphSearchCatchUpLeakProb := 1 / 4\<rparr>) rand_nextBool
          [(None, False)] [1 / 2] example_node example_node 2 0
        = Returns (True, rand', node', [], Some (3, 4))
        \<and> fst (getChildren example_constants node' 2)
            = Some [\<lparr>data = Some 5, edgeVisits = 4, moveLoc = 7\<rparr>,
                    \<lparr>data = Some 6, edgeVisits = 4, moveLoc = 8\<rparr>])
   \<and> descendChosenChild example_constants example_params example_nextBool
          [(Some 5, False), (None, True), (None, False)] 0 example_node example_node 2 0
          False True
        = Returns (True, [UpdateStatsAfterPlayout, ReleaseVirtualLoss])"
proof -
  let ?cs = "[\<lparr>data = Some 5, edgeVisits = 3, moveLoc = 7\<rparr>,
              \<lparr>data = Some 6, edgeVisits = 4, moveLoc = 8\<rparr>]"
  let ?leak = "example_params\<lparr>graphSearchCatchUpLeakProb := 1 / 4\<rparr>"
  have pre: "fst (getChildren example_constants example_node 2) = Some ?cs"
    by (simp add: getChildren_def example_node_def STATE_defs)
  have idx: "(0::nat) < length ?cs" by simp
  have behind: "edgeVisits (?cs ! 0) < visits (stats example_node)"
    and noleak: "\<not> graphSearchCatchUpLeakProb example_params > 0"
    and leak: "graphSearchCatchUpLeakProb ?leak > 0" "graphSearchCatchUpLeakProb ?leak = 1 / 4"
    by (simp_all add: example_node_def example_stats_def example_params_def)
  \<comment> \<open>another worker stores 5, then a spurious failure, then the exchange\<close>
  note t1 = maybeCatchUpEdgeVisits_adds_one [OF pre idx, where child = example_node
      and sp = example_params and nextBool = example_nextBool
      and env = "[(Some 5, False), (None, True), (None, False)]" and rand = 0]
  have "\<exists>rand' node'.
        maybeCatchUpEdgeVisits example_constants example_params example_nextBool
          [(Some 5, False), (None, True), (None, False)] 0 example_node example_node 2 0
        = Returns (True, rand', node', [], Some (5, 6))"
    using pre noleak
    by (simp add: maybeCatchUpEdgeVisits_def compexweakLoop.simps Let_def example_node_def
        example_stats_def)
  then obtain rand1 node1 where r1:
    "maybeCatchUpEdgeVisits example_constants example_params example_nextBool
          [(Some 5, False), (None, True), (None, False)] 0 example_node example_node 2 0
        = Returns (True, rand1, node1, [], Some (5, 6))"
    by blast
  from t1 [THEN conjunct2, THEN conjunct2, THEN conjunct2, THEN conjunct1, rule_format, OF r1]
  obtain pre1 where
    p1: "[(Some 5, False), (None, True), (None, False)] = pre1 @ []"
    and g1: "fst (getChildren example_constants node1 2)
                   = Some (?cs[0 := (?cs ! 0)\<lparr>edgeVisits := cellAfter pre1 (edgeVisits (?cs ! 0)) + 1\<rparr>])"
    by blast
  from p1 have "pre1 = [(Some 5, False), (None, True), (None, False)]" by simp
  with g1 have g1': "fst (getChildren example_constants node1 2)
            = Some [\<lparr>data = Some 5, edgeVisits = 6, moveLoc = 7\<rparr>,
                    \<lparr>data = Some 6, edgeVisits = 4, moveLoc = 8\<rparr>]"
    by simp
  from t1 [THEN conjunct2, THEN conjunct2, THEN conjunct2, THEN conjunct2, THEN conjunct2,
      THEN conjunct2, rule_format, OF r1]
  have d: "descendChosenChild example_constants example_params example_nextBool
          [(Some 5, False), (None, True), (None, False)] 0 example_node example_node 2 0
          False True
        = Returns (True, [UpdateStatsAfterPlayout, ReleaseVirtualLoss])" .
  \<comment> \<open>another worker stores 9, above the child's visits\<close>
  note t2 = maybeCatchUpEdgeVisits_adds_one [OF pre idx, where child = example_node
      and sp = example_params and nextBool = example_nextBool
      and env = "[(Some 9, False), (None, False)]" and rand = 0]
  have "\<exists>rand' node'.
        maybeCatchUpEdgeVisits example_constants example_params example_nextBool
          [(Some 9, False), (None, False)] 0 example_node example_node 2 0
        = Returns (False, rand', node', [(None, False)], None)"
    using pre noleak
    by (simp add: maybeCatchUpEdgeVisits_def compexweakLoop.simps Let_def example_node_def
        example_stats_def)
  then obtain rand2 node2 where r2:
    "maybeCatchUpEdgeVisits example_constants example_params example_nextBool
          [(Some 9, False), (None, False)] 0 example_node example_node 2 0
        = Returns (False, rand2, node2, [(None, False)], None)"
    by blast
  from t2 [THEN conjunct2, THEN conjunct2, THEN conjunct2, THEN conjunct2, THEN conjunct1,
      rule_format, OF r2]
  obtain pre2 where
    p2: "[(Some 9, False), (None, False)] = pre2 @ [(None, False)]"
    and n2: "node2 = setChildren example_node 2
                 (?cs[0 := (?cs ! 0)\<lparr>edgeVisits := cellAfter pre2 (edgeVisits (?cs ! 0))\<rparr>])"
    by blast
  from p2 have "pre2 = [(Some 9, False)]" by simp
  with n2 have g2: "fst (getChildren example_constants node2 2)
            = Some [\<lparr>data = Some 5, edgeVisits = 9, moveLoc = 7\<rparr>,
                    \<lparr>data = Some 6, edgeVisits = 4, moveLoc = 8\<rparr>]"
    by (simp add: getChildren_setChildren [OF pre])
  \<comment> \<open>leak probability 1/4: a draw of 1/8 leaks, a draw of 1/2 does not\<close>
  note t3 = maybeCatchUpEdgeVisits_adds_one [OF pre idx, where child = example_node
      and sp = ?leak and nextBool = rand_nextBool and env = "[(None, False)]" and rand = "[1 / 2]"]
  from t3 [THEN conjunct2, THEN conjunct2, THEN conjunct1, rule_format, OF conjI,
      OF leak(1) behind, of "1 / 8" "[]"]
  have l: "maybeCatchUpEdgeVisits example_constants ?leak rand_nextBool
          [(None, False)] [1 / 8] example_node example_node 2 0
        = Returns (False, [], example_node, [(None, False)], None)"
    by (simp add: leak(2))
  note t4 = maybeCatchUpEdgeVisits_adds_one [OF pre idx, where child = example_node
      and sp = ?leak and nextBool = rand_nextBool and env = "[]" and rand = "[1 / 2]"]
  have nodraw: "\<not> (graphSearchCatchUpLeakProb ?leak > 0
      \<and> fst (rand_nextBool [1 / 2] (graphSearchCatchUpLeakProb ?leak)))"
    by (simp add: rand_nextBool_def leak(2))
  from t4 [THEN conjunct2, THEN conjunct2, THEN conjunct2, THEN conjunct2, THEN conjunct2,
      THEN conjunct1, rule_format, OF conjI, OF behind nodraw]
  obtain rand4 where r4: "maybeCatchUpEdgeVisits example_constants ?leak rand_nextBool
          [(None, False)] [1 / 2] example_node example_node 2 0
        = Returns (True, rand4,
            setChildren example_node 2 (?cs[0 := (?cs ! 0)\<lparr>edgeVisits := edgeVisits (?cs ! 0) + 1\<rparr>]),
            [], Some (edgeVisits (?cs ! 0), edgeVisits (?cs ! 0) + 1))"
    by blast
  have g4: "fst (getChildren example_constants
       (setChildren example_node 2 (?cs[0 := (?cs ! 0)\<lparr>edgeVisits := edgeVisits (?cs ! 0) + 1\<rparr>])) 2)
       = Some [\<lparr>data = Some 5, edgeVisits = 4, moveLoc = 7\<rparr>,
                    \<lparr>data = Some 6, edgeVisits = 4, moveLoc = 8\<rparr>]"
    by (simp add: getChildren_setChildren [OF pre])
  from r4 have r4': "maybeCatchUpEdgeVisits example_constants ?leak rand_nextBool
          [(None, False)] [1 / 2] example_node example_node 2 0
        = Returns (True, rand4,
            setChildren example_node 2 (?cs[0 := (?cs ! 0)\<lparr>edgeVisits := edgeVisits (?cs ! 0) + 1\<rparr>]),
            [], Some (3, 4))"
    by simp
  have A: "\<exists>rand' node'.
        maybeCatchUpEdgeVisits example_constants example_params example_nextBool
          [(Some 5, False), (None, True), (None, False)] 0 example_node example_node 2 0
        = Returns (True, rand', node', [], Some (5, 6))
        \<and> fst (getChildren example_constants node' 2)
            = Some [\<lparr>data = Some 5, edgeVisits = 6, moveLoc = 7\<rparr>,
                    \<lparr>data = Some 6, edgeVisits = 4, moveLoc = 8\<rparr>]"
    using r1 g1' by blast
  have B: "\<exists>rand' node'.
        maybeCatchUpEdgeVisits example_constants example_params example_nextBool
          [(Some 9, False), (None, False)] 0 example_node example_node 2 0
        = Returns (False, rand', node', [(None, False)], None)
        \<and> fst (getChildren example_constants node' 2)
            = Some [\<lparr>data = Some 5, edgeVisits = 9, moveLoc = 7\<rparr>,
                    \<lparr>data = Some 6, edgeVisits = 4, moveLoc = 8\<rparr>]"
    using r2 g2 by blast
  have C: "\<exists>rand' node'.
        maybeCatchUpEdgeVisits example_constants ?leak rand_nextBool
          [(None, False)] [1 / 2] example_node example_node 2 0
        = Returns (True, rand', node', [], Some (3, 4))
        \<and> fst (getChildren example_constants node' 2)
            = Some [\<lparr>data = Some 5, edgeVisits = 4, moveLoc = 7\<rparr>,
                    \<lparr>data = Some 6, edgeVisits = 4, moveLoc = 8\<rparr>]"
    using r4' g4 by blast
  from pre idx A B l C d show ?thesis by (intro conjI)
qed

subsection \<open>Recomputation of the time limit\<close>

text \<open>
  C8 (the code does not keep this). Worker 0 is meant to recompute the time limit at most
  once per 0.1 seconds, but \<^verbatim>\<open>lastTimeUsedRecomputingTcLimit\<close> stays at 0: once 0.1 seconds
  have passed, every iteration of worker 0 recomputes. Here three iterations that read the
  timer at 0.15, 0.16 and 0.17 seconds recompute three times within 0.02 seconds.
\<close>

theorem searchLoop_recomputes_every_iteration:
  "searchLoop example_captures 0 0 example_reads = [0.15, 0.16, 0.17]"
  by (simp add: searchLoop_def example_captures_def example_reads_def Let_def)

subsection \<open>Dirichlet noise\<close>

lemma overLegal_length [simp]:
  "length (overLegal f ps as) = min (length ps) (length as)"
  by (simp add: overLegal_def)

lemma overLegal_overLegal:
  "overLegal g ps (overLegal f ps as) = overLegal (\<lambda>p a. g p (f p a)) ps as"
proof (induction ps arbitrary: as)
  case Nil
  then show ?case by (simp add: overLegal_def)
next
  case (Cons p ps)
  then show ?case by (cases as) (simp_all add: overLegal_def)
qed

lemma sumLegal_overLegal:
  "length ps \<le> length as \<Longrightarrow>
     sumLegal ps (overLegal (\<lambda>p a. f p) ps as) = sum_list (map f (legalMoves ps))"
proof (induction ps arbitrary: as)
  case Nil
  then show ?case by (simp add: overLegal_def sumLegal_def legalMoves_def)
next
  case (Cons p ps)
  then obtain a as' where as: "as = a # as'" by (cases as) auto
  with Cons.prems have "length ps \<le> length as'" by simp
  from Cons.IH [OF this] show ?case
    unfolding as by (simp add: overLegal_def sumLegal_def legalMoves_def)
qed

lemma overLegal_cong:
  "(\<And>p a. p \<ge> 0 \<Longrightarrow> f p a = g p a) \<Longrightarrow> overLegal f ps as = overLegal g ps as"
proof (induction ps arbitrary: as)
  case Nil
  then show ?case by (simp add: overLegal_def)
next
  case (Cons p ps)
  then show ?case by (cases as) (simp_all add: overLegal_def)
qed

lemma sum_list_legal_affine:
  fixes c d :: real
  shows "sum_list (map (\<lambda>p. c * f p + d) xs) = c * sum_list (map f xs) + d * real (length xs)"
  by (induction xs) (simp_all add: algebra_simps)


lemma computeDirichletAlphaDistribution_eq:
  assumes legal: "legalMoves policyProbs \<noteq> []" and len: "length policyProbs \<le> length r"
  shows "computeDirichletAlphaDistribution policyProbs r =
     Inr (overLegal (\<lambda>p a. alphaProportion policyProbs p) policyProbs
            (take (length policyProbs) r) @ drop (length policyProbs) r)"
proof -
  define n where "n = length (legalMoves policyProbs)"
  define a0 where "a0 = take (length policyProbs) r"
  define mean where "mean = sum_list (map clampedLogPolicy (legalMoves policyProbs)) / real n"
  define S where "S = sum_list (map (logPolicyShape policyProbs) (legalMoves policyProbs))"
  have n0: "0 < n" using legal by (simp add: n_def)
  have la0: "length policyProbs \<le> length a0" using len by (simp add: a0_def)
  define a1 where "a1 = overLegal (\<lambda>p a. ln (min 0.01 p + 1 / 10 ^ 20)) policyProbs a0"
  have la1: "length policyProbs \<le> length a1" using la0 by (simp add: a1_def)
  have s1: "sumLegal policyProbs a1 = sum_list (map clampedLogPolicy (legalMoves policyProbs))"
    unfolding a1_def using sumLegal_overLegal [OF la0, of "\<lambda>p. ln (min 0.01 p + 1 / 10 ^ 20)"]
    by (simp add: clampedLogPolicy_def [abs_def])
  define a2 where "a2 = overLegal (\<lambda>p a. max 0 (a - sumLegal policyProbs a1 / real n)) policyProbs a1"
  have a2: "a2 = overLegal (\<lambda>p a. logPolicyShape policyProbs p) policyProbs a0"
  proof -
    have "a2 = overLegal (\<lambda>p a. max 0 (a - mean)) policyProbs a1"
      by (simp add: a2_def s1 mean_def)
    also have "\<dots> = overLegal (\<lambda>p a. max 0 (clampedLogPolicy p - mean)) policyProbs a0"
      by (simp add: a1_def overLegal_overLegal clampedLogPolicy_def)
    also have "\<dots> = overLegal (\<lambda>p a. logPolicyShape policyProbs p) policyProbs a0"
      by (simp add: logPolicyShape_def mean_def n_def)
    finally show ?thesis .
  qed
  have s2: "sumLegal policyProbs a2 = S"
    unfolding a2 S_def using sumLegal_overLegal [OF la0, of "logPolicyShape policyProbs"] .
  have ap: "alphaProportion policyProbs p
      = (if S \<le> 0 then 1 / real n else 0.5 * (logPolicyShape policyProbs p / S + 1 / real n))" for p
    by (simp add: alphaProportion_def logPolicyShare_def uniformShare_def S_def n_def Let_def
        algebra_simps)
  have a3: "(if S \<le> 0 then overLegal (\<lambda>p a. 1 / real n) policyProbs a2
             else overLegal (\<lambda>p a. 0.5 * (a / S + 1 / real n)) policyProbs a2)
      = overLegal (\<lambda>p a. alphaProportion policyProbs p) policyProbs a0"
    unfolding a2 overLegal_overLegal by (simp add: ap)
  have "computeDirichletAlphaDistribution policyProbs r
      = Inr ((if S \<le> 0 then overLegal (\<lambda>p a. 1 / real n) policyProbs a2
             else overLegal (\<lambda>p a. 0.5 * (a / S + 1 / real n)) policyProbs a2)
            @ drop (length policyProbs) r)"
    using n0 len
    unfolding computeDirichletAlphaDistribution_def Let_def
    by (simp add: s2 [symmetric] a2_def a1_def a0_def n_def legalMoves_def)
  then show ?thesis unfolding a3 a0_def .
qed

lemma logPolicyShare_sum:
  assumes legal: "legalMoves policyProbs \<noteq> []"
  shows "sum_list (map (logPolicyShare policyProbs) (legalMoves policyProbs)) = 1"
proof -
  define n where "n = length (legalMoves policyProbs)"
  define S where "S = sum_list (map (logPolicyShape policyProbs) (legalMoves policyProbs))"
  have n0: "0 < n" using legal by (simp add: n_def)
  show ?thesis
  proof (cases "S > 0")
    case True
    then have "logPolicyShare policyProbs = (\<lambda>p. (1 / S) * logPolicyShape policyProbs p + 0)"
      by (simp add: logPolicyShare_def S_def Let_def fun_eq_iff)
    then show ?thesis
      using True unfolding sum_list_legal_affine [of "1 / S" "logPolicyShape policyProbs" 0]
      using sum_list_legal_affine [of "1 / S" "logPolicyShape policyProbs" 0 "legalMoves policyProbs"]
      by (simp add: S_def)
  next
    case False
    then have "logPolicyShare policyProbs = (\<lambda>p. 0 * logPolicyShape policyProbs p + 1 / real n)"
      by (simp add: logPolicyShare_def S_def Let_def fun_eq_iff uniformShare_def n_def)
    then show ?thesis
      using n0 sum_list_legal_affine [of 0 "logPolicyShape policyProbs" "1 / real n" "legalMoves policyProbs"]
      by (simp add: n_def)
  qed
qed

lemma alphaProportion_sum:
  assumes legal: "legalMoves policyProbs \<noteq> []"
  shows "sum_list (map (alphaProportion policyProbs) (legalMoves policyProbs)) = 1"
proof -
  define n where "n = length (legalMoves policyProbs)"
  have n0: "0 < n" using legal by (simp add: n_def)
  have "alphaProportion policyProbs
      = (\<lambda>p. 0.5 * logPolicyShare policyProbs p + 0.5 * (1 / real n))"
    by (simp add: alphaProportion_def uniformShare_def n_def fun_eq_iff)
  then show ?thesis
    using n0 logPolicyShare_sum [OF legal]
      sum_list_legal_affine [of "0.5" "logPolicyShare policyProbs" "0.5 * (1 / real n)"
        "legalMoves policyProbs"]
    by (simp add: n_def)
qed


text \<open>The draws of the code are the samples of the specification, put at the legal moves.\<close>

lemma sampleGammas_length [simp]:
  "length (fst (sampleGammas nextGamma rand alphas)) = length alphas"
proof (induction alphas arbitrary: rand)
  case Nil
  show ?case by simp
next
  case (Cons alpha alphas)
  obtain g rand1 where ng: "nextGamma rand alpha = (g, rand1)"
    by (cases "nextGamma rand alpha")
  obtain gs rand2 where sg: "sampleGammas nextGamma rand1 alphas = (gs, rand2)"
    by (cases "sampleGammas nextGamma rand1 alphas")
  from Cons [of rand1] show ?case by (simp add: ng sg)
qed

lemma gammaDraws_sample:
  assumes "length ps \<le> length rs"
  shows "length (fst (gammaDraws nextGamma conc rand ps rs)) = length ps
     \<and> snd (gammaDraws nextGamma conc rand ps rs)
         = snd (sampleGammas nextGamma rand
                  (map (\<lambda>(p, r). r * conc) (filter (\<lambda>(p, r). p \<ge> 0) (zip ps rs))))
     \<and> sumLegal ps (fst (gammaDraws nextGamma conc rand ps rs))
         = sum_list (fst (sampleGammas nextGamma rand
                  (map (\<lambda>(p, r). r * conc) (filter (\<lambda>(p, r). p \<ge> 0) (zip ps rs)))))
     \<and> (\<forall>i<length ps.
           fst (gammaDraws nextGamma conc rand ps rs) ! i
             = (if ps ! i \<ge> 0
                then fst (sampleGammas nextGamma rand
                       (map (\<lambda>(p, r). r * conc) (filter (\<lambda>(p, r). p \<ge> 0) (zip ps rs))))
                     ! length (legalMoves (take i ps))
                else 0))"
  using assms
proof (induction ps arbitrary: rs rand)
  case Nil
  then show ?case by (simp add: sumLegal_def)
next
  case (Cons p ps)
  then obtain r rs' where rs: "rs = r # rs'" by (cases rs) auto
  with Cons.prems have len: "length ps \<le> length rs'" by simp
  show ?case
  proof (cases "p \<ge> 0")
    case True
    obtain g rand1 where ng: "nextGamma rand (r * conc) = (g, rand1)"
      by (cases "nextGamma rand (r * conc)")
    note IH = Cons.IH [OF len, of rand1]
    obtain gs rand2 where gd: "gammaDraws nextGamma conc rand1 ps rs' = (gs, rand2)"
      by (cases "gammaDraws nextGamma conc rand1 ps rs'")
    obtain ss rand3 where sg: "sampleGammas nextGamma rand1
        (map (\<lambda>(p, r). r * conc) (filter (\<lambda>(p, r). p \<ge> 0) (zip ps rs'))) = (ss, rand3)"
      by (cases "sampleGammas nextGamma rand1
        (map (\<lambda>(p, r). r * conc) (filter (\<lambda>(p, r). p \<ge> 0) (zip ps rs')))")
    from IH have ih: "length gs = length ps" "rand2 = rand3" "sumLegal ps gs = sum_list ss"
      "\<forall>i<length ps. gs ! i = (if ps ! i \<ge> 0 then ss ! length (legalMoves (take i ps)) else 0)"
      by (simp_all add: gd sg)
    have nth: "(g # gs) ! i
        = (if (p # ps) ! i \<ge> 0 then (g # ss) ! length (legalMoves (take i (p # ps))) else 0)"
      if "i < length (p # ps)" for i
    proof (cases i)
      case 0
      with True show ?thesis by (simp add: legalMoves_def)
    next
      case (Suc j)
      with that ih(4) True show ?thesis by (simp add: legalMoves_def)
    qed
    from True ih(1-3) nth show ?thesis
      unfolding rs by (simp add: ng gd sg sumLegal_def)
  next
    case False
    note IH = Cons.IH [OF len, of rand]
    obtain gs rand2 where gd: "gammaDraws nextGamma conc rand ps rs' = (gs, rand2)"
      by (cases "gammaDraws nextGamma conc rand ps rs'")
    obtain ss rand3 where sg: "sampleGammas nextGamma rand
        (map (\<lambda>(p, r). r * conc) (filter (\<lambda>(p, r). p \<ge> 0) (zip ps rs'))) = (ss, rand3)"
      by (cases "sampleGammas nextGamma rand
        (map (\<lambda>(p, r). r * conc) (filter (\<lambda>(p, r). p \<ge> 0) (zip ps rs')))")
    from IH have ih: "length gs = length ps" "rand2 = rand3" "sumLegal ps gs = sum_list ss"
      "\<forall>i<length ps. gs ! i = (if ps ! i \<ge> 0 then ss ! length (legalMoves (take i ps)) else 0)"
      by (simp_all add: gd sg)
    have nth: "(0 # gs) ! i
        = (if (p # ps) ! i \<ge> 0 then ss ! length (legalMoves (take i (p # ps))) else 0)"
      if "i < length (p # ps)" for i
    proof (cases i)
      case 0
      with False show ?thesis by simp
    next
      case (Suc j)
      with that ih(4) False show ?thesis by (simp add: legalMoves_def)
    qed
    from False ih(1-3) nth show ?thesis
      unfolding rs by (simp add: gd sg sumLegal_def)
  qed
qed

lemma legalAlphas_overLegal:
  "length ps \<le> length as \<Longrightarrow>
     map (\<lambda>(p, r). r * conc) (filter (\<lambda>(p, r). p \<ge> 0) (zip ps (overLegal (\<lambda>p a. F p) ps as @ rest)))
       = map (\<lambda>p. F p * conc) (legalMoves ps)"
proof (induction ps arbitrary: as)
  case Nil
  then show ?case by (simp add: legalMoves_def)
next
  case (Cons p ps)
  then obtain a as' where as: "as = a # as'" by (cases as) auto
  with Cons.prems have "length ps \<le> length as'" by simp
  from Cons.IH [OF this] show ?case
    unfolding as by (simp add: overLegal_def legalMoves_def)
qed

text \<open>
  C6. For a policy vector with at least one legal move, \<open>computeDirichletAlphaDistribution\<close>
  gives every legal move the proportion \<open>0.5 * uniform share + 0.5 * log-policy share\<close> and
  leaves the entries of illegal moves as they were; the log-policy shares and the
  proportions each sum to 1 over the legal moves, so the alphas (the proportions times
  \<open>rootDirichletNoiseTotalConcentration\<close>) sum to the total concentration.
  \<open>addDirichletNoise\<close> takes one Gamma sample per legal move, in index order, with these
  alphas, and leaves the generator as the samples leave it. When the samples do not sum
  to 0, the new vector has the length of the old one, the probability \<open>p\<close> of the \<open>k\<close>-th
  legal move is replaced by
  \<open>rootDirichletNoiseWeight * (k-th sample / sum of the samples)
  + (1 - rootDirichletNoiseWeight) * p\<close>, and illegal moves are unchanged. When the samples
  sum to 0 their quotients by the sum are no numbers, and no vector of reals results.
\<close>

theorem dirichlet_noise_proportions:
  assumes "legalMoves policyProbs \<noteq> []" and "length policyProbs \<le> length r"
  shows "computeDirichletAlphaDistribution policyProbs r =
           Inr (overLegal (\<lambda>p a. alphaProportion policyProbs p) policyProbs
                  (take (length policyProbs) r) @ drop (length policyProbs) r)
       \<and> sum_list (map (logPolicyShare policyProbs) (legalMoves policyProbs)) = 1
       \<and> sum_list (map (alphaProportion policyProbs) (legalMoves policyProbs)) = 1
       \<and> sum_list (dirichletAlphas sp policyProbs) = rootDirichletNoiseTotalConcentration sp
       \<and> length (fst (sampleGammas nextGamma rand (dirichletAlphas sp policyProbs)))
           = length (legalMoves policyProbs)
       \<and> (sum_list (fst (sampleGammas nextGamma rand (dirichletAlphas sp policyProbs))) = 0 \<longrightarrow>
            addDirichletNoise sp nextGamma rand policyProbs r = Inl NotANumber)
       \<and> (sum_list (fst (sampleGammas nextGamma rand (dirichletAlphas sp policyProbs))) \<noteq> 0 \<longrightarrow>
            (\<exists>noisy.
               addDirichletNoise sp nextGamma rand policyProbs r
                 = Inr (snd (sampleGammas nextGamma rand (dirichletAlphas sp policyProbs)), noisy)
               \<and> length noisy = length policyProbs
               \<and> (\<forall>i<length policyProbs.
                     noisy ! i =
                       (if policyProbs ! i \<ge> 0
                        then rootDirichletNoiseWeight sp
                               * (fst (sampleGammas nextGamma rand (dirichletAlphas sp policyProbs))
                                    ! length (legalMoves (take i policyProbs))
                                  / sum_list (fst (sampleGammas nextGamma rand
                                                     (dirichletAlphas sp policyProbs))))
                             + (1 - rootDirichletNoiseWeight sp) * policyProbs ! i
                        else policyProbs ! i))))"
proof -
  define conc where "conc = rootDirichletNoiseTotalConcentration sp"
  define w where "w = rootDirichletNoiseWeight sp"
  define r1 where "r1 = overLegal (\<lambda>p a. alphaProportion policyProbs p) policyProbs
                  (take (length policyProbs) r) @ drop (length policyProbs) r"
  define S where "S = sampleGammas nextGamma rand (dirichletAlphas sp policyProbs)"
  define D where "D = gammaDraws nextGamma conc rand policyProbs r1"
  note eq = computeDirichletAlphaDistribution_eq [OF assms, folded r1_def]
  have concsum: "sum_list (dirichletAlphas sp policyProbs) = conc"
    using sum_list_legal_affine [of conc "alphaProportion policyProbs" 0 "legalMoves policyProbs"]
      alphaProportion_sum [OF assms(1)]
    by (simp add: mult.commute dirichletAlphas_def conc_def)
  have len1: "length policyProbs \<le> length r1" using assms(2) by (simp add: r1_def)
  have la: "map (\<lambda>(p, r). r * conc) (filter (\<lambda>(p, r). p \<ge> 0) (zip policyProbs r1))
      = dirichletAlphas sp policyProbs"
    unfolding r1_def dirichletAlphas_def conc_def
    by (rule legalAlphas_overLegal) (use assms(2) in simp)
  note gd = gammaDraws_sample [OF len1, of nextGamma conc rand, unfolded la, folded S_def D_def]
  from gd have dlen: "length (fst D) = length policyProbs" and drand: "snd D = snd S"
    and dsum: "sumLegal policyProbs (fst D) = sum_list (fst S)"
    and dnth: "\<forall>i<length policyProbs.
           fst D ! i = (if policyProbs ! i \<ge> 0
                        then fst S ! length (legalMoves (take i policyProbs)) else 0)"
    by simp_all
  have slen: "length (fst S) = length (legalMoves policyProbs)"
    by (simp add: S_def dirichletAlphas_def)
  have unf: "addDirichletNoise sp nextGamma rand policyProbs r =
      (if sum_list (fst S) = 0 then Inl NotANumber
       else Inr (snd S,
              map2 (\<lambda>p x. if p \<ge> 0 then x * w + p * (1 - w) else p) policyProbs
                (map (\<lambda>x. x / sum_list (fst S)) (fst D))))"
  proof -
    obtain d1 d2 where D: "D = (d1, d2)" by (cases D)
    with dsum drand have "sumLegal policyProbs d1 = sum_list (fst S)" "d2 = snd S" by simp_all
    then show ?thesis
      unfolding addDirichletNoise_def eq
      by (simp add: Let_def conc_def [symmetric] w_def [symmetric] D_def [symmetric] D)
  qed
  have zero: "addDirichletNoise sp nextGamma rand policyProbs r = Inl NotANumber"
    if "sum_list (fst S) = 0"
    using that by (simp add: unf)
  have nonzero: "\<exists>noisy.
               addDirichletNoise sp nextGamma rand policyProbs r = Inr (snd S, noisy)
               \<and> length noisy = length policyProbs
               \<and> (\<forall>i<length policyProbs.
                     noisy ! i =
                       (if policyProbs ! i \<ge> 0
                        then w * (fst S ! length (legalMoves (take i policyProbs))
                                  / sum_list (fst S))
                             + (1 - w) * policyProbs ! i
                        else policyProbs ! i))"
    if nz: "sum_list (fst S) \<noteq> 0"
  proof -
    define noisy where "noisy = map2 (\<lambda>p x. if p \<ge> 0 then x * w + p * (1 - w) else p) policyProbs
                (map (\<lambda>x. x / sum_list (fst S)) (fst D))"
    have a: "addDirichletNoise sp nextGamma rand policyProbs r = Inr (snd S, noisy)"
      using nz by (simp add: unf noisy_def)
    have b: "length noisy = length policyProbs" by (simp add: noisy_def dlen)
    have c: "noisy ! i =
                       (if policyProbs ! i \<ge> 0
                        then w * (fst S ! length (legalMoves (take i policyProbs))
                                  / sum_list (fst S))
                             + (1 - w) * policyProbs ! i
                        else policyProbs ! i)"
      if "i < length policyProbs" for i
      using that dnth dlen by (simp add: noisy_def algebra_simps)
    from a b c show ?thesis by blast
  qed
  show ?thesis
    unfolding conc_def [symmetric] w_def [symmetric] r1_def [symmetric] S_def [symmetric]
    using eq logPolicyShare_sum [OF assms(1)] alphaProportion_sum [OF assms(1)] concsum slen
      zero nonzero
    by (intro conjI impI) assumption+
qed

theorem dirichlet_noise_proportions_witness:
  "legalMoves [1 / 2, - 1, 0] \<noteq> [] \<and> length [1 / 2, - 1, 0 :: real] \<le> length [0, 7, 0 :: real]
   \<and> computeDirichletAlphaDistribution [1 / 2, - 1, 0] [0, 7, 0] = Inr [3 / 4, 7, 1 / 4]
   \<and> dirichletAlphas (example_params\<lparr>rootDirichletNoiseTotalConcentration := 4,
                                      rootDirichletNoiseWeight := 1 / 4\<rparr>) [1 / 2, - 1, 0]
       = [3, 1]
   \<and> sampleGammas example_nextGamma 0 [3, 1] = ([3, 2], 2)
   \<and> addDirichletNoise (example_params\<lparr>rootDirichletNoiseTotalConcentration := 4,
                                        rootDirichletNoiseWeight := 1 / 4\<rparr>) example_nextGamma 0
        [1 / 2, - 1, 0] [0, 7, 0]
      = Inr (2, [21 / 40, - 1, 1 / 10])
   \<and> addDirichletNoise (example_params\<lparr>rootDirichletNoiseTotalConcentration := 4,
                                        rootDirichletNoiseWeight := 1 / 4\<rparr>)
        (\<lambda>g alpha. (0, Suc g)) 0 [1 / 2, - 1, 0] [0, 7, 0]
      = Inl NotANumber"
proof -
  let ?P = "[1 / 2, - 1, 0 :: real]"
  let ?sp = "example_params\<lparr>rootDirichletNoiseTotalConcentration := 4,
                            rootDirichletNoiseWeight := 1 / 4\<rparr>"
  define a :: real where "a = ln (1 / 100 + 1 / 10 ^ 20)"
  define b :: real where "b = ln (1 / 10 ^ 20)"
  have ab: "b < a" unfolding a_def b_def by (subst ln_less_cancel_iff) simp_all
  have l: "legalMoves ?P \<noteq> []" and lm: "legalMoves ?P = [1 / 2, 0]"
    by (simp_all add: legalMoves_def)
  have n: "length ?P \<le> length [0, 7, 0 :: real]" by simp
  have ca: "clampedLogPolicy (1 / 2) = a" and cb: "clampedLogPolicy 0 = b"
    by (simp_all add: clampedLogPolicy_def a_def b_def)
  have sa: "logPolicyShape ?P (1 / 2) = (a - b) / 2" and sb: "logPolicyShape ?P 0 = 0"
    using ab by (simp_all add: logPolicyShape_def lm ca cb field_simps max_def)
  have apa: "alphaProportion ?P (1 / 2) = 3 / 4" and apb: "alphaProportion ?P 0 = 1 / 4"
    using ab by (simp_all add: alphaProportion_def logPolicyShare_def uniformShare_def lm sa sb)
  have al: "dirichletAlphas ?sp ?P = [3, 1]"
    by (simp add: dirichletAlphas_def lm apa apb)
  have sg: "sampleGammas example_nextGamma 0 [3, 1] = ([3, 2], 2)"
    by (simp add: example_nextGamma_def numeral_2_eq_2)
  note T = dirichlet_noise_proportions [OF l n, of ?sp example_nextGamma 0]
  from T have c: "computeDirichletAlphaDistribution ?P [0, 7, 0] = Inr [3 / 4, 7, 1 / 4]"
    by (simp add: overLegal_def apa apb)
  have nz: "sum_list (fst (sampleGammas example_nextGamma 0 (dirichletAlphas ?sp ?P))) \<noteq> 0"
    unfolding al sg by simp
  have w: "rootDirichletNoiseWeight ?sp = 1 / 4" by simp
  have s5: "sum_list [3, 2 :: real] = 5" by simp
  have l3: "length ?P = 3" by simp
  note X = T [THEN conjunct2, THEN conjunct2, THEN conjunct2, THEN conjunct2, THEN conjunct2,
      THEN conjunct2, THEN mp, OF nz, unfolded al sg fst_conv snd_conv w s5 l3]
  from X obtain noisy where
    r: "addDirichletNoise ?sp example_nextGamma 0 ?P [0, 7, 0] = Inr (2, noisy)"
    and len: "length noisy = 3"
    and nth: "\<forall>i<3. noisy ! i =
                 (if ?P ! i \<ge> 0
                  then 1 / 4 * ([3, 2] ! length (legalMoves (take i ?P)) / 5) + (1 - 1 / 4) * ?P ! i
                  else ?P ! i)"
    by blast
  from len obtain x y z where xyz: "noisy = [x, y, z]"
    by (auto simp: numeral_3_eq_3 length_Suc_conv)
  from nth [rule_format, of 0] nth [rule_format, of "Suc 0"] nth [rule_format, of "Suc (Suc 0)"]
  have "x = 21 / 40" "y = - 1" "z = 1 / 10"
    unfolding xyz by (simp_all add: legalMoves_def)
  with xyz have "noisy = [21 / 40, - 1, 1 / 10]" by simp
  with r have d: "addDirichletNoise ?sp example_nextGamma 0 ?P [0, 7, 0]
      = Inr (2, [21 / 40, - 1, 1 / 10])" by simp
  have z: "sum_list (fst (sampleGammas (\<lambda>g alpha. (0, Suc g)) (0 :: nat) (dirichletAlphas ?sp ?P)))
      = 0"
    unfolding al by simp
  from dirichlet_noise_proportions [OF l n, of ?sp "\<lambda>g alpha. (0, Suc g)" "0 :: nat",
      THEN conjunct2, THEN conjunct2, THEN conjunct2, THEN conjunct2, THEN conjunct2,
      THEN conjunct1, THEN mp, OF z]
  have e: "addDirichletNoise ?sp (\<lambda>g alpha. (0, Suc g)) 0 ?P [0, 7, 0] = Inl NotANumber" .
  from l n c al sg d e show ?thesis by (intro conjI)
qed

subsection \<open>Clearing the search and advancing the root\<close>

lemma foldOutcome_Returns_induct:
  assumes "foldOutcome f xs s = Returns s'"
    and "P s"
    and "\<And>x a b. x \<in> set xs \<Longrightarrow> P a \<Longrightarrow> f x a = Returns b \<Longrightarrow> P b"
  shows "P s'"
  using assms
proof (induction xs arbitrary: s)
  case Nil
  then show ?case by simp
next
  case (Cons x xs)
  from Cons.prems(1) obtain s1 where s1: "f x s = Returns s1" and r: "foldOutcome f xs s1 = Returns s'"
    by (auto split: outcome.splits)
  have "P s1" using Cons.prems(3) [OF _ Cons.prems(2) s1] by simp
  then show ?case using Cons.IH [OF r] Cons.prems(3) by (metis list.set_intros(2))
qed

lemma foldOutcome_Returns_visits:
  assumes "foldOutcome f xs s = Returns s'"
    and "x \<in> set xs"
    and "P s"
    and pres: "\<And>y a b. P a \<Longrightarrow> f y a = Returns b \<Longrightarrow> P b"
    and at: "\<And>a b. P a \<Longrightarrow> f x a = Returns b \<Longrightarrow> Q b"
    and keep: "\<And>y a b. P a \<Longrightarrow> Q a \<Longrightarrow> f y a = Returns b \<Longrightarrow> Q b"
  shows "Q s'"
  using assms(1,2,3)
proof (induction xs arbitrary: s)
  case Nil
  then show ?case by simp
next
  case (Cons y ys)
  from Cons.prems(1) obtain s1 where s1: "f y s = Returns s1" and r: "foldOutcome f ys s1 = Returns s'"
    by (auto split: outcome.splits)
  have p1: "P s1" using pres [OF Cons.prems(3) s1] .
  show ?case
  proof (cases "x = y")
    case True
    then have "P s1 \<and> Q s1" using at [OF Cons.prems(3)] s1 p1 by simp
    then have "P s' \<and> Q s'"
      by (rule foldOutcome_Returns_induct [OF r, of "\<lambda>a. P a \<and> Q a"]) (use pres keep in blast)
    then show ?thesis by simp
  next
    case False
    then have "x \<in> set ys" using Cons.prems(2) by simp
    from Cons.IH [OF r this p1] show ?thesis .
  qed
qed

lemma treeOnly_refl [simp]: "treeOnly s s"
  by (simp add: treeOnly_def)

lemma treeOnly_trans: "treeOnly a b \<Longrightarrow> treeOnly b c \<Longrightarrow> treeOnly a c"
  unfolding treeOnly_def
  by (metis (no_types, lifting) search.surjective search.update_convs(13,14,16))


lemma spawnThreadsIfNeeded_treeOnly: "treeOnly s (spawnThreadsIfNeeded s)"
  by (simp add: spawnThreadsIfNeeded_def treeOnly_def Let_def)

lemma spawnThreadsIfNeeded_fields [simp]:
  "nodeTable (spawnThreadsIfNeeded s) = nodeTable s"
  "heap (spawnThreadsIfNeeded s) = heap s"
  "searchParams (spawnThreadsIfNeeded s) = searchParams s"
  "searchNodeAge (spawnThreadsIfNeeded s) = searchNodeAge s"
  "rootNode (spawnThreadsIfNeeded s) = rootNode s"
  by (simp_all add: spawnThreadsIfNeeded_def Let_def)

lemma numAdditionalThreads_spawn [simp]:
  "numAdditionalThreadsToUseForTasks (spawnThreadsIfNeeded s) = numAdditionalThreadsToUseForTasks s"
  by (simp add: numAdditionalThreadsToUseForTasks_def)

text \<open>What \<open>performTaskWithThreads\<close> runs: the task, for each index, from the handle after spawning.\<close>

lemma performTaskWithThreads_runs:
  assumes "performTaskWithThreads task s = Returns s'"
    and "0 \<le> numAdditionalThreadsToUseForTasks s"
  shows "foldOutcome task [0..<nat (numAdditionalThreadsToUseForTasks s) + 1]
           (spawnThreadsIfNeeded s) = Returns s'"
proof (cases "numAdditionalThreadsToUseForTasks s \<le> 0")
  case True
  with assms(2) have z: "numAdditionalThreadsToUseForTasks s = 0" by simp
  from assms(1) have "task 0 (spawnThreadsIfNeeded s) = Returns s'"
    by (simp add: performTaskWithThreads_def Let_def z)
  then show ?thesis by (simp add: z)
next
  case False
  with assms(1) show ?thesis
    by (simp add: performTaskWithThreads_def Let_def split: if_splits)
qed

lemma clearShard_treeOnly: "clearShard i s = Returns s' \<Longrightarrow> treeOnly s s'"
  by (auto simp: clearShard_def treeOnly_def split: if_splits)

lemma clearShard_empties:
  "clearShard i s = Returns s' \<Longrightarrow> i < length (nodeTable s') \<and> nodeTable s' ! i = []"
  by (auto simp: clearShard_def split: if_splits)

lemma clearShard_keeps_empty:
  "clearShard i s = Returns s' \<Longrightarrow> j < length (nodeTable s) \<Longrightarrow> nodeTable s ! j = [] \<Longrightarrow>
     j < length (nodeTable s') \<and> nodeTable s' ! j = []"
  by (auto simp: clearShard_def nth_list_update split: if_splits)

lemma clearShards_treeOnly:
  assumes "foldOutcome clearShard idxs s = Returns s'"
  shows "treeOnly s s'"
  by (rule foldOutcome_Returns_induct [OF assms, of "treeOnly s"])
    (auto intro: treeOnly_trans clearShard_treeOnly)

lemma clearShards_keep_empty:
  assumes "foldOutcome clearShard idxs s = Returns s'"
    and "j < length (nodeTable s) \<and> nodeTable s ! j = []"
  shows "j < length (nodeTable s') \<and> nodeTable s' ! j = []"
  by (rule foldOutcome_Returns_induct [OF assms(1), of "\<lambda>x. j < length (nodeTable x) \<and> nodeTable x ! j = []"])
    (use assms(2) clearShard_keeps_empty in blast)+

lemma clearShards_empty:
  assumes "foldOutcome clearShard idxs s = Returns s'" and "i \<in> set idxs"
  shows "i < length (nodeTable s') \<and> nodeTable s' ! i = []"
  by (rule foldOutcome_Returns_visits [OF assms, of "\<lambda>x. True"
        "\<lambda>x. i < length (nodeTable x) \<and> nodeTable x ! i = []"])
    (use clearShard_empties clearShard_keeps_empty in blast)+

text \<open>The ranges of the threads cover every shard, as long as the 64-bit product does not wrap.\<close>

lemma range_cover:
  fixes f :: "nat \<Rightarrow> nat"
  shows "f 0 \<le> i \<Longrightarrow> i < f m \<Longrightarrow> \<exists>t<m. f t \<le> i \<and> i < f (Suc t)"
proof (induction m)
  case 0
  then show ?case by simp
next
  case (Suc m)
  show ?case
  proof (cases "i < f m")
    case True
    from Suc.IH [OF Suc.prems(1) True] show ?thesis using less_Suc_eq by auto
  next
    case False
    then show ?thesis using Suc.prems(2) by auto
  qed
qed

lemma shardRange_cover:
  assumes "(n + 1) * numShards < 2 ^ 64" and "i < numShards"
  shows "\<exists>t<n + 1. i \<in> set (shardRange t numShards n)"
proof -
  define f where "f t = t * numShards div (n + 1)" for t
  have f0: "f 0 \<le> i" by (simp add: f_def)
  have "f (n + 1) = numShards"
    unfolding f_def by (subst nonzero_mult_div_cancel_left) simp_all
  then have fn: "i < f (n + 1)" using assms(2) by simp
  from range_cover [OF f0 fn] obtain t where t: "t < n + 1" "f t \<le> i" "i < f (Suc t)" by blast
  have "t \<le> n + 1" "t + 1 \<le> n + 1" using t(1) by simp_all
  then have "t * numShards \<le> (n + 1) * numShards" "(t + 1) * numShards \<le> (n + 1) * numShards"
    using mult_le_mono1 by blast+
  then have "t * numShards < 2 ^ 64" "(t + 1) * numShards < 2 ^ 64"
    using assms(1) by linarith+
  then have "t * numShards mod 2 ^ 64 = t * numShards"
    "(t + 1) * numShards mod 2 ^ 64 = (t + 1) * numShards"
    by simp_all
  then have "i \<in> set (shardRange t numShards n)"
    using t(2,3) by (simp add: shardRange_def f_def)
  then show ?thesis using t(1) by blast
qed

lemma clearTask_treeOnly: "clearTask n t a = Returns b \<Longrightarrow> treeOnly a b"
  unfolding clearTask_def by (rule clearShards_treeOnly)

lemma deleteAllTableNodesMulithreaded_result:
  fixes s :: "('b, 'h, 'k) search"
  assumes r: "deleteAllTableNodesMulithreaded s = Returns s'"
    and bound: "nat (numThreads (searchParams s)) * length (nodeTable s) < 2 ^ 64"
  shows "treeOnly s s' \<and> list_all (\<lambda>m. m = []) (nodeTable s')"
proof -
  define n where "n = nat (numAdditionalThreadsToUseForTasks s)"
  from r have n0: "0 \<le> numAdditionalThreadsToUseForTasks s"
    by (simp add: deleteAllTableNodesMulithreaded_def Let_def split: if_splits)
  then have n1: "n + 1 = nat (numThreads (searchParams s))"
    by (simp add: n_def numAdditionalThreadsToUseForTasks_def)
  from r n0 have "performTaskWithThreads (clearTask n) s = Returns s'"
    by (simp add: deleteAllTableNodesMulithreaded_def Let_def n_def clearTask_def [abs_def])
  from performTaskWithThreads_runs [OF this n0]
  have run: "foldOutcome (clearTask n) [0..<n + 1] (spawnThreadsIfNeeded s) = Returns s'"
    by (simp add: n_def)
  have t1: "treeOnly (spawnThreadsIfNeeded s) s'"
    by (rule foldOutcome_Returns_induct [OF run, of "treeOnly (spawnThreadsIfNeeded s)"])
      (auto intro: treeOnly_trans clearTask_treeOnly)
  then have t: "treeOnly s s'"
    using spawnThreadsIfNeeded_treeOnly treeOnly_trans by blast
  have len: "length (nodeTable s') = length (nodeTable s)"
    using t by (simp add: treeOnly_def)
  have "nodeTable s' ! i = []" if i: "i < length (nodeTable s)" for i
  proof -
    have "(n + 1) * length (nodeTable s) < 2 ^ 64" using bound n1 by simp
    from shardRange_cover [OF this i]
    obtain t where t: "t < n + 1" "i \<in> set (shardRange t (length (nodeTable s)) n)" by blast
    define P where "P x \<longleftrightarrow> length (nodeTable x) = length (nodeTable s)"
      for x :: "('b, 'h, 'k) search"
    define Q where "Q x \<longleftrightarrow> i < length (nodeTable x) \<and> nodeTable x ! i = []"
      for x :: "('b, 'h, 'k) search"
    have "Q s'"
    proof (rule foldOutcome_Returns_visits [OF run, of t P Q])
      show "t \<in> set [0..<n + 1]" using t(1) by auto
      show "P (spawnThreadsIfNeeded s)" by (simp add: P_def)
      show "P b" if "P a" "clearTask n y a = Returns b" for y a b
        using clearTask_treeOnly [OF that(2)] that(1) by (simp add: P_def treeOnly_def)
      show "Q b" if "P a" "clearTask n t a = Returns b" for a b
        using clearShards_empty [OF that(2) [unfolded clearTask_def]] t(2) that(1)
        by (simp add: P_def Q_def)
      show "Q b" if "P a" "Q a" "clearTask n y a = Returns b" for y a b
        using clearShards_keep_empty [OF that(3) [unfolded clearTask_def]] that(2)
        by (simp add: Q_def)
    qed
    then show ?thesis by (simp add: Q_def)
  qed
  then show ?thesis using t len by (simp add: list_all_length)
qed


lemma clearSearch_frame:
  fixes s :: "('b, 'h, 'k) search"
  assumes "clearSearch s = Returns s'"
  shows "s' = s\<lparr>effectiveSearchTimeCarriedOver := 0, heap := heap s', nodeTable := nodeTable s',
                numThreadsSpawned := numThreadsSpawned s', rootNode := None,
                oldNNOutputsToCleanUp := [], searchNodeAge := 0\<rparr>
       \<and> length (nodeTable s') = length (nodeTable s)"
proof -
  from assms obtain s1 where
    d: "deleteAllTableNodesMulithreaded (s\<lparr>effectiveSearchTimeCarriedOver := 0\<rparr>) = Returns s1"
    and s': "s' = (clearOldNNOutputs (case rootNode s1 of None \<Rightarrow> s1
                | Some rootAddr \<Rightarrow> s1\<lparr>heap := (heap s1)(rootAddr := None), rootNode := None\<rparr>))
               \<lparr>searchNodeAge := 0\<rparr>"
    by (auto simp: clearSearch_def Let_def split: outcome.splits)
  define n where "n = nat (numAdditionalThreadsToUseForTasks (s\<lparr>effectiveSearchTimeCarriedOver := 0\<rparr>))"
  from d have n0: "0 \<le> numAdditionalThreadsToUseForTasks (s\<lparr>effectiveSearchTimeCarriedOver := 0\<rparr>)"
    by (simp add: deleteAllTableNodesMulithreaded_def Let_def split: if_splits)
  from d n0 have "performTaskWithThreads (clearTask n) (s\<lparr>effectiveSearchTimeCarriedOver := 0\<rparr>)
      = Returns s1"
    by (simp add: deleteAllTableNodesMulithreaded_def Let_def n_def clearTask_def [abs_def])
  from performTaskWithThreads_runs [OF this n0]
  have run: "foldOutcome (clearTask n) [0..<n + 1]
      (spawnThreadsIfNeeded (s\<lparr>effectiveSearchTimeCarriedOver := 0\<rparr>)) = Returns s1"
    by (simp add: n_def)
  have "treeOnly (spawnThreadsIfNeeded (s\<lparr>effectiveSearchTimeCarriedOver := 0\<rparr>)) s1"
    by (rule foldOutcome_Returns_induct [OF run,
          of "treeOnly (spawnThreadsIfNeeded (s\<lparr>effectiveSearchTimeCarriedOver := 0\<rparr>))"])
      (auto intro: treeOnly_trans clearTask_treeOnly)
  then have t: "treeOnly (s\<lparr>effectiveSearchTimeCarriedOver := 0\<rparr>) s1"
    using spawnThreadsIfNeeded_treeOnly treeOnly_trans by blast
  define T where "T = s\<lparr>effectiveSearchTimeCarriedOver := 0, heap := heap s1,
      nodeTable := nodeTable s1, numThreadsSpawned := numThreadsSpawned s1\<rparr>"
  from t have e: "s1 = T" and len: "length (nodeTable s1) = length (nodeTable s)"
    by (simp_all add: treeOnly_def T_def)
  have "s' = (clearOldNNOutputs (case rootNode T of None \<Rightarrow> T
                | Some rootAddr \<Rightarrow> T\<lparr>heap := (heap T)(rootAddr := None), rootNode := None\<rparr>))
               \<lparr>searchNodeAge := 0\<rparr>"
    using s' unfolding e .
  then show ?thesis
    using len by (simp add: T_def clearOldNNOutputs_def split: option.splits)
qed

lemma clearSearch_table:
  fixes s :: "('b, 'h, 'k) search"
  assumes "clearSearch s = Returns s'"
    and "nat (numThreads (searchParams s)) * length (nodeTable s) < 2 ^ 64"
  shows "list_all (\<lambda>m. m = []) (nodeTable s')"
proof -
  from assms(1) obtain s1 where
    d: "deleteAllTableNodesMulithreaded (s\<lparr>effectiveSearchTimeCarriedOver := 0\<rparr>) = Returns s1"
    and s': "nodeTable s' = nodeTable s1"
    by (auto simp: clearSearch_def Let_def clearOldNNOutputs_def split: outcome.splits option.splits)
  from deleteAllTableNodesMulithreaded_result [OF d] assms(2) show ?thesis
    by (simp add: s')
qed


lemma clearSearch_keeps:
  fixes s :: "('b, 'h, 'k) search"
  assumes "clearSearch s = Returns s'"
  shows "rootPla s' = rootPla s \<and> rootBoard s' = rootBoard s \<and> rootHistory s' = rootHistory s
       \<and> rootHintLoc s' = rootHintLoc s
       \<and> avoidMoveUntilByLocBlack s' = avoidMoveUntilByLocBlack s
       \<and> avoidMoveUntilByLocWhite s' = avoidMoveUntilByLocWhite s
       \<and> searchParams s' = searchParams s \<and> plaThatSearchIsFor s' = plaThatSearchIsFor s
       \<and> rootKoHashTable s' = rootKoHashTable s \<and> nextAddr s' = nextAddr s
       \<and> length (nodeTable s') = length (nodeTable s)
       \<and> rootNode s' = None \<and> oldNNOutputsToCleanUp s' = []
       \<and> effectiveSearchTimeCarriedOver s' = 0 \<and> searchNodeAge s' = 0"
proof -
  from clearSearch_frame [OF assms] obtain h t m where
    e: "s' = s\<lparr>effectiveSearchTimeCarriedOver := 0, heap := h, nodeTable := t,
                numThreadsSpawned := m, rootNode := None,
                oldNNOutputsToCleanUp := [], searchNodeAge := 0\<rparr>"
    and len: "length (nodeTable s') = length (nodeTable s)"
    by blast
  show ?thesis using len unfolding e by simp
qed




lemma helper_0:
  "applyRecursivelyAnyOrderMulithreadedHelper 0 K age a h = OutOfFuel"
  by simp

lemma helper_Suc:
  "applyRecursivelyAnyOrderMulithreadedHelper (Suc fuel) K age a h =
     (case h a of
          None \<Rightarrow> Fails NullDeref
        | Some node \<Rightarrow>
            if nodeAge node = age then Returns h
            else
              (case iterateAndCountChildrenInArray (fst (getChildren K node (state node)))
                      (snd (getChildren K node (state node))) of
                 Inl e \<Rightarrow> Fails e
               | Inr numChildren \<Rightarrow>
                   (case foldOutcome
                           (\<lambda>c h'. case data c of
                                      None \<Rightarrow> Fails NullDeref
                                    | Some child \<Rightarrow>
                                        applyRecursivelyAnyOrderMulithreadedHelper fuel K age
                                          child h')
                           (occupiedSlots (fst (getChildren K node (state node))) numChildren) h of
                      Fails e \<Rightarrow> Fails e
                    | OutOfFuel \<Rightarrow> OutOfFuel
                    | Returns h1 \<Rightarrow>
                        (case h1 a of
                           None \<Rightarrow> Fails NullDeref
                         | Some node1 \<Rightarrow> Returns (h1(a \<mapsto> node1\<lparr>nodeAge := age\<rparr>))))))"
  by simp

declare applyRecursivelyAnyOrderMulithreadedHelper.simps [simp del]

lemmas example_defs =
  example_search_def example_heap_def example_leaf_def fresh_node_def example_game_def
  example_constants_def example_params_def

lemma example_threads: "[0..<nat 1 + 1] = [0, 1]" "[0..<Suc (Suc 0)] = [0, Suc 0]"
  by (simp_all add: upt_rec)

lemma example_shards:
  "shardRange 0 2 (Suc 0) = [0]" "shardRange (Suc 0) 2 (Suc 0) = [Suc 0]"
  "shardRange 0 (Suc (Suc 0)) (Suc 0) = [0]" "shardRange (Suc 0) (Suc (Suc 0)) (Suc 0) = [Suc 0]"
  by (simp_all add: shardRange_def upt_rec numeral_2_eq_2 [symmetric])

lemmas makeMove_defs =
  makeMove_def isLegalTolerant_def obind_def setPlayerAndClearHistory_def reuseOrClear_def
  promoteChild_def cloneSearchNode_def copyChildArray_def findChild_def occupiedSlots_def
  iterateAndCountChildrenInArray_def getChildren_def applyRecursivelyAnyOrderMulithreaded_def
  performTaskWithThreads_def spawnThreadsIfNeeded_def numAdditionalThreadsToUseForTasks_def
  deleteAllOldOrAllNewTableNodesAndSubtreeValueBiasMulithreaded_def sweepShard_def
  playRootMove_def clearSearchIf_def clearSearch_def deleteAllTableNodesMulithreaded_def
  clearShard_def deleteNodes_def clearOldNNOutputs_def STATE_defs Let_def
  helper_Suc helper_0 example_threads example_shards

text \<open>
  C7. After \<open>clearSearch\<close> returns, every shard map of the node table is empty, the root
  pointer is null, the list of old evaluator outputs is empty, and the carried-over search
  time and the node age are 0. (The shard ranges of the threads are computed with a 64-bit
  product; the number of threads times the number of shards is taken to fit in 64 bits.)
\<close>

theorem clearSearch_leaves_nothing:
  fixes s :: "('b, 'h, 'k) search"
  assumes "clearSearch s = Returns s'"
    and "nat (numThreads (searchParams s)) * length (nodeTable s) < 2 ^ 64"
  shows "list_all (\<lambda>m. m = []) (nodeTable s') \<and> length (nodeTable s') = length (nodeTable s)
       \<and> rootNode s' = None \<and> oldNNOutputsToCleanUp s' = []
       \<and> effectiveSearchTimeCarriedOver s' = 0 \<and> searchNodeAge s' = 0"
  using clearSearch_table [OF assms] clearSearch_keeps [OF assms(1)] by simp

theorem clearSearch_leaves_nothing_witness:
  "\<exists>s'. clearSearch example_search = Returns s'
      \<and> nat (numThreads (searchParams example_search)) * length (nodeTable example_search) < 2 ^ 64
      \<and> nodeTable s' = [[], []] \<and> rootNode s' = None \<and> oldNNOutputsToCleanUp s' = []
      \<and> effectiveSearchTimeCarriedOver s' = 0 \<and> searchNodeAge s' = 0"
proof -
  have b: "nat (numThreads (searchParams example_search)) * length (nodeTable example_search) < 2 ^ 64"
    by (simp add: example_defs)
  have "\<exists>s'. clearSearch example_search = Returns s'"
    by (simp add: makeMove_defs example_defs)
  then obtain s' where r: "clearSearch example_search = Returns s'" by blast
  from clearSearch_leaves_nothing [OF r b]
  have "list_all (\<lambda>m. m = []) (nodeTable s')" "length (nodeTable s') = 2"
    and rest: "rootNode s' = None" "oldNNOutputsToCleanUp s' = []"
      "effectiveSearchTimeCarriedOver s' = 0" "searchNodeAge s' = 0"
    by (simp_all add: example_defs)
  then have "nodeTable s' = [[], []]"
    by (cases "nodeTable s'"; cases "tl (nodeTable s')") auto
  with r b rest show ?thesis by blast
qed

text \<open>
  C10. \<open>clearSearch\<close> leaves the installed position alone: the root board, the root
  history (so the komi, which is part of its rules), the root player, the search
  parameters, the hint location and both avoid-move lists are unchanged. It changes
  nothing but the carried-over time, the heap of nodes and the node table, the root
  pointer, the list of old evaluator outputs, the node age, and, beyond the tree and its
  bookkeeping, the count of spawned worker threads: the table is cleared by the worker
  pool, which is started on demand.
\<close>

theorem clearSearch_keeps_position:
  fixes s :: "('b, 'h, 'k) search"
  assumes "clearSearch s = Returns s'"
  shows "rootBoard s' = rootBoard s \<and> rootHistory s' = rootHistory s
       \<and> komi (rootHistory s') = komi (rootHistory s)
       \<and> rootPla s' = rootPla s \<and> searchParams s' = searchParams s
       \<and> rootHintLoc s' = rootHintLoc s
       \<and> avoidMoveUntilByLocBlack s' = avoidMoveUntilByLocBlack s
       \<and> avoidMoveUntilByLocWhite s' = avoidMoveUntilByLocWhite s
       \<and> s' = s\<lparr>effectiveSearchTimeCarriedOver := 0, heap := heap s', nodeTable := nodeTable s',
                  numThreadsSpawned := numThreadsSpawned s', rootNode := None,
                  oldNNOutputsToCleanUp := [], searchNodeAge := 0\<rparr>"
  using clearSearch_keeps [OF assms] clearSearch_frame [OF assms] by simp

theorem clearSearch_keeps_position_witness:
  "\<exists>s'. clearSearch example_search = Returns s'
      \<and> rootBoard s' = 0 \<and> rootHistory s' = 0 \<and> rootPla s' = P_BLACK
      \<and> searchParams s' = example_params \<and> rootHintLoc s' = 0
      \<and> avoidMoveUntilByLocBlack s' = [3] \<and> avoidMoveUntilByLocWhite s' = [4]"
proof -
  have "\<exists>s'. clearSearch example_search = Returns s'"
    by (simp add: makeMove_defs example_defs)
  then obtain s' where r: "clearSearch example_search = Returns s'" by blast
  from clearSearch_keeps_position [OF r, of "\<lambda>h. 0"]
  have "rootBoard s' = 0 \<and> rootHistory s' = 0 \<and> rootPla s' = P_BLACK
      \<and> searchParams s' = example_params \<and> rootHintLoc s' = 0
      \<and> avoidMoveUntilByLocBlack s' = [3] \<and> avoidMoveUntilByLocWhite s' = [4]"
    by (simp add: example_search_def)
  with r show ?thesis by blast
qed

text \<open>
  On the small tree no worker thread is spawned yet; after \<open>clearSearch\<close> one is, so the
  handle is not the old one with only the carried-over time, the nodes and the table, the
  root pointer, the list of old evaluator outputs and the node age changed.
\<close>

theorem clearSearch_spawns_threads:
  "numThreadsSpawned example_search = 0
   \<and> (case clearSearch example_search of
        Returns s' \<Rightarrow>
          numThreadsSpawned s' = 1
          \<and> s' \<noteq> example_search\<lparr>effectiveSearchTimeCarriedOver := effectiveSearchTimeCarriedOver s',
                                   heap := heap s', nodeTable := nodeTable s',
                                   rootNode := rootNode s',
                                   oldNNOutputsToCleanUp := oldNNOutputsToCleanUp s',
                                   searchNodeAge := searchNodeAge s'\<rparr>
      | Fails e \<Rightarrow> False
      | OutOfFuel \<Rightarrow> False)"
proof -
  have n: "numThreadsSpawned example_search = 0" by (simp add: example_search_def)
  have "\<exists>s'. clearSearch example_search = Returns s' \<and> numThreadsSpawned s' = 1"
    by (simp add: makeMove_defs example_defs)
  then obtain s' where r: "clearSearch example_search = Returns s'"
    and m: "numThreadsSpawned s' = 1" by blast
  have "s' \<noteq> example_search\<lparr>effectiveSearchTimeCarriedOver := effectiveSearchTimeCarriedOver s',
                                   heap := heap s', nodeTable := nodeTable s',
                                   rootNode := rootNode s',
                                   oldNNOutputsToCleanUp := oldNNOutputsToCleanUp s',
                                   searchNodeAge := searchNodeAge s'\<rparr>"
  proof
    assume "s' = example_search\<lparr>effectiveSearchTimeCarriedOver := effectiveSearchTimeCarriedOver s',
                                   heap := heap s', nodeTable := nodeTable s',
                                   rootNode := rootNode s',
                                   oldNNOutputsToCleanUp := oldNNOutputsToCleanUp s',
                                   searchNodeAge := searchNodeAge s'\<rparr>"
    then have "numThreadsSpawned s' = numThreadsSpawned (example_search\<lparr>effectiveSearchTimeCarriedOver := effectiveSearchTimeCarriedOver s',
                                   heap := heap s', nodeTable := nodeTable s',
                                   rootNode := rootNode s',
                                   oldNNOutputsToCleanUp := oldNNOutputsToCleanUp s',
                                   searchNodeAge := searchNodeAge s'\<rparr>)"
      by (rule arg_cong)
    with m n show False by simp
  qed
  with n r m show ?thesis by simp
qed


lemma clearSearchIf_keeps:
  fixes s :: "('b, 'h, 'k) search"
  assumes "clearSearchIf b s = Returns s'"
  shows "rootPla s' = rootPla s \<and> rootBoard s' = rootBoard s \<and> rootHistory s' = rootHistory s
       \<and> avoidMoveUntilByLocBlack s' = avoidMoveUntilByLocBlack s
       \<and> avoidMoveUntilByLocWhite s' = avoidMoveUntilByLocWhite s
       \<and> searchParams s' = searchParams s
       \<and> length (nodeTable s') = length (nodeTable s)"
  using assms clearSearch_keeps [of s s'] by (auto simp: clearSearchIf_def split: if_splits)

text \<open>The stages a call of \<open>makeMove\<close> went through when it returned.\<close>

lemma makeMove_Returns:
  assumes "makeMove G K fuel s mv movePla preventEncore = Returns (b, s')"
  shows "\<not> isLegalTolerant G s mv movePla \<and> \<not> b \<and> s' = s
       \<or> isLegalTolerant G s mv movePla \<and> b \<and>
         (\<exists>s1 s2 s4 s5.
            (if movePla \<noteq> rootPla s then setPlayerAndClearHistory G s movePla else Returns s)
              = Returns s1
            \<and> reuseOrClear fuel K s1 mv = Returns s2
            \<and> clearSearchIf (hist_whiteHandicapBonusScore G
                                (rootHistory (playRootMove G s2 mv preventEncore))
                              \<noteq> hist_whiteHandicapBonusScore G (rootHistory s2))
                 (playRootMove G s2 mv preventEncore) = Returns s4
            \<and> clearSearchIf (conservativePass (searchParams s4)
                              \<and> hist_passWouldEndGame G (rootHistory s4) (rootBoard s4) (rootPla s4))
                 s4 = Returns s5
            \<and> clearSearchIf (preventEncore
                              \<and> hist_passWouldEndPhase G (rootHistory s5) (rootBoard s5) (rootPla s5))
                 s5 = Returns s')"
proof (cases "isLegalTolerant G s mv movePla")
  case False
  with assms show ?thesis by (simp add: makeMove_def)
next
  case True
  from assms True obtain s1 where
    s1: "(if movePla \<noteq> rootPla s then setPlayerAndClearHistory G s movePla else Returns s)
           = Returns s1"
    by (simp add: makeMove_def obind_def split: outcome.splits)
  from assms True s1 obtain s2 where s2: "reuseOrClear fuel K s1 mv = Returns s2"
    by (simp add: makeMove_def obind_def split: outcome.splits)
  define s3 where "s3 = playRootMove G s2 mv preventEncore"
  from assms True s1 s2 obtain s4 where
    s4: "clearSearchIf (hist_whiteHandicapBonusScore G (rootHistory s3)
                          \<noteq> hist_whiteHandicapBonusScore G (rootHistory s2)) s3 = Returns s4"
    by (simp add: makeMove_def obind_def Let_def s3_def split: outcome.splits)
  from assms True s1 s2 s4 obtain s5 where
    s5: "clearSearchIf (conservativePass (searchParams s4)
                              \<and> hist_passWouldEndGame G (rootHistory s4) (rootBoard s4) (rootPla s4))
                 s4 = Returns s5"
    by (simp add: makeMove_def obind_def Let_def s3_def split: outcome.splits)
  from assms True s1 s2 s4 s5 have
    "clearSearchIf (preventEncore
                      \<and> hist_passWouldEndPhase G (rootHistory s5) (rootBoard s5) (rootPla s5))
                 s5 = Returns s'" and "b"
    by (simp_all add: makeMove_def obind_def Let_def s3_def split: outcome.splits)
  with True s1 s2 s4 s5 show ?thesis unfolding s3_def by blast
qed

lemma playRootMove_avoid [simp]:
  "avoidMoveUntilByLocBlack (playRootMove G s mv pe) = []"
  "avoidMoveUntilByLocWhite (playRootMove G s mv pe) = []"
  by (simp_all add: playRootMove_def split: prod.splits)

text \<open>
  C9. A call of \<open>makeMove\<close> that returns true leaves both avoid-move lists empty, whether
  the tree was reused or cleared; so does \<open>setPosition\<close>.
\<close>

theorem makeMove_clears_avoid_moves:
  fixes s :: "('b, 'h, 'k) search"
  shows "(makeMove G K fuel s mv movePla preventEncore = Returns (True, s') \<longrightarrow>
            avoidMoveUntilByLocBlack s' = [] \<and> avoidMoveUntilByLocWhite s' = [])
       \<and> (setPosition G s pla board history = Returns s'' \<longrightarrow>
            avoidMoveUntilByLocBlack s'' = [] \<and> avoidMoveUntilByLocWhite s'' = [])"
proof (intro conjI impI)
  assume "makeMove G K fuel s mv movePla preventEncore = Returns (True, s')"
  from makeMove_Returns [OF this] obtain s2 s4 s5 where
    "clearSearchIf (hist_whiteHandicapBonusScore G
                                (rootHistory (playRootMove G s2 mv preventEncore))
                              \<noteq> hist_whiteHandicapBonusScore G (rootHistory s2))
                 (playRootMove G s2 mv preventEncore) = Returns s4"
    "clearSearchIf (conservativePass (searchParams s4)
                              \<and> hist_passWouldEndGame G (rootHistory s4) (rootBoard s4) (rootPla s4))
                 s4 = Returns s5"
    "clearSearchIf (preventEncore
                              \<and> hist_passWouldEndPhase G (rootHistory s5) (rootBoard s5) (rootPla s5))
                 s5 = Returns s'"
    by blast
  from this [THEN clearSearchIf_keeps]
  show "avoidMoveUntilByLocBlack s' = []" "avoidMoveUntilByLocWhite s' = []"
    by simp_all
next
  assume "setPosition G s pla board history = Returns s''"
  then show "avoidMoveUntilByLocBlack s'' = []" "avoidMoveUntilByLocWhite s'' = []"
    by (auto simp: setPosition_def split: outcome.splits)
qed

text \<open>A run of \<open>makeMove\<close> on the small tree that reuses the subtree of move 7.\<close>

lemma example_makeMove_reuses:
  "\<exists>s'. makeMove example_game example_constants (Suc (Suc (Suc 0))) example_search 7 P_BLACK False
           = Returns (True, s')
      \<and> rootNode s' = Some 10 \<and> nodeTable s' = [[], [(13, 3)]]"
  by (simp add: makeMove_defs example_defs)

theorem makeMove_clears_avoid_moves_witness:
  "avoidMoveUntilByLocBlack example_search = [3] \<and> avoidMoveUntilByLocWhite example_search = [4]
   \<and> (\<exists>s'. makeMove example_game example_constants (Suc (Suc (Suc 0))) example_search 7 P_BLACK False
               = Returns (True, s')
        \<and> rootNode s' = Some 10
        \<and> avoidMoveUntilByLocBlack s' = [] \<and> avoidMoveUntilByLocWhite s' = [])
   \<and> (\<exists>s''. setPosition example_game example_search P_WHITE 1 1 = Returns s''
        \<and> avoidMoveUntilByLocBlack s'' = [] \<and> avoidMoveUntilByLocWhite s'' = [])"
proof -
  from example_makeMove_reuses obtain s' where
    r: "makeMove example_game example_constants (Suc (Suc (Suc 0))) example_search 7 P_BLACK False
           = Returns (True, s')" and root: "rootNode s' = Some 10"
    by blast
  have "\<exists>s''. setPosition example_game example_search P_WHITE 1 1 = Returns s''"
    by (simp add: setPosition_def makeMove_defs example_defs)
  then obtain s'' where p: "setPosition example_game example_search P_WHITE 1 1 = Returns s''"
    by blast
  from makeMove_clears_avoid_moves [of example_game example_constants "Suc (Suc (Suc 0))"
      example_search 7 P_BLACK False s' P_WHITE 1 1 s''] r p
  have "avoidMoveUntilByLocBlack s' = [] \<and> avoidMoveUntilByLocWhite s' = []"
    "avoidMoveUntilByLocBlack s'' = [] \<and> avoidMoveUntilByLocWhite s'' = []"
    by simp_all
  with r root p show ?thesis by (auto simp: example_search_def)
qed

subsection \<open>Promotion of a child and the sweep of the table\<close>




lemma getChildren_nodeAge [simp]:
  "getChildren K (n\<lparr>nodeAge := age\<rparr>) v = getChildren K n v"
  by (simp add: getChildren_def)

lemma childAddrs_nodeAge [simp]: "childAddrs K (n\<lparr>nodeAge := age\<rparr>) = childAddrs K n"
  by (simp add: childAddrs_def cong: sum.case_cong)












lemma shrunk_refl [simp]: "shrunk age h h"
  by (simp add: shrunk_def)














lemma playRootMove_tree [simp]:
  "rootNode (playRootMove G s mv pe) = rootNode s"
  "heap (playRootMove G s mv pe) = heap s"
  "nodeTable (playRootMove G s mv pe) = nodeTable s"
  "searchNodeAge (playRootMove G s mv pe) = searchNodeAge s"
  "searchParams (playRootMove G s mv pe) = searchParams s"
  by (simp_all add: playRootMove_def split: prod.splits)







lemma aged_update [simp]: "aged age (h(a \<mapsto> n\<lparr>nodeAge := age\<rparr>)) a"
  by (simp add: aged_def)




































subsection \<open>Selection score\<close>

text \<open>
  C1. For total child weight \<open>W\<close>, policy probability \<open>P\<close>, child weight \<open>cw\<close> and child
  utility \<open>Q\<close> (white's point of view), \<open>getExploreSelectionValue\<close> returns
  \<open>(pla = white ? Q : -Q) + cPuct(W) * stdevFactor * P * sqrt (W + 0.01) / (1 + cw)\<close> with
  \<open>cPuct(W) = cpuctExploration + cpuctExplorationLog * ln ((W + base) / base)\<close>, and for a
  negative (illegal) policy probability it returns the illegal-selection sentinel.
\<close>

theorem getExploreSelectionValue_formula:
  "getExploreSelectionValue illegalValue sp P W cw Q stdevFactor pla =
     (if P < 0 then illegalValue else score_spec sp P W cw Q stdevFactor pla)"
  by (simp add: getExploreSelectionValue_def score_spec_def cPuct_spec_def
      cpuctExploration_def TOTALCHILDWEIGHT_PUCT_OFFSET_def Let_def)

end
